theory Spec2Isabelle
  imports Main "HOL-Library.Product_Lexorder"
begin

section \<open>Data model\<close>

text \<open>
  The repository is Python. Identifiers are Python integers, modelled by \<^typ>\<open>int\<close>.
  An identifier range is the two-element list \<open>[start, stop]\<close>, modelled by a pair; the
  order Python's \<open>list.sort\<close> uses on such lists is the lexicographic order on pairs.
  A Python \<open>str\<close> is modelled by \<^typ>\<open>string\<close>, each \<^typ>\<open>char\<close> read as the code
  point of the same number (0 to 255); strings with code points above 255 are outside the
  model. Exceptions are values of \<open>py_error\<close>.
\<close>

type_synonym identifier_range = "int \<times> int"

datatype py_error = IndexError | ValueError

section \<open>region.py: renumbering datapoints before nodes are converted\<close>

text \<open>\<open>_find_missing\<close>: the integers strictly between consecutive elements of the list.\<close>

definition find_missing :: "int list \<Rightarrow> int list" where
  "find_missing lst =
     concat (map (\<lambda>(x, y). filter (\<lambda>i. y - x > 1) [x + 1 .. y - 1]) (zip lst (tl lst)))"

text \<open>The variables the \<open>while datapoint.isValid()\<close> loop updates.\<close>

record remap_state =
  available_identifiers :: "int list"
  max_identifier :: int
  identifier_map :: "int \<rightharpoonup> int"

text \<open>One pass through the loop body, for the datapoint with identifier \<open>dp\<close>.\<close>

definition remap_step :: "int set \<Rightarrow> remap_state \<Rightarrow> int \<Rightarrow> remap_state" where
  "remap_step existing_nodes_identifiers_set s dp =
     (if dp \<in> existing_nodes_identifiers_set \<and> length (available_identifiers s) \<noteq> 0
      then s\<lparr>available_identifiers := tl (available_identifiers s),
             identifier_map := (identifier_map s)(dp \<mapsto> hd (available_identifiers s))\<rparr>
      else s\<lparr>max_identifier := max_identifier s + 1,
             identifier_map := (identifier_map s)(dp \<mapsto> max_identifier s + 1)\<rparr>)"

fun remap_loop :: "int set \<Rightarrow> int list \<Rightarrow> remap_state \<Rightarrow> remap_state" where
  "remap_loop nodes_set [] s = s"
| "remap_loop nodes_set (dp # dps) s = remap_loop nodes_set dps (remap_step nodes_set s dp)"

text \<open>
  Lines 21 to 40 of \<open>convert_nodes_to_datapoints\<close>, as a function of the identifiers of the
  nodes (\<open>existing_A\<close> of the specification), the identifiers of the datapoints
  (\<open>existing_B\<close>) and the identifiers the datapoint iterator yields (the candidates).
  \<open>in_use_identifiers[-1]\<close> raises \<open>IndexError\<close> on an empty list.
\<close>

definition gap_list :: "int list \<Rightarrow> int list" where
  "gap_list in_use_identifiers =
     [1 .. hd in_use_identifiers - 1] @ find_missing in_use_identifiers"

definition in_use :: "int list \<Rightarrow> int list \<Rightarrow> int list" where
  "in_use nodes_identifiers datapoint_identifiers =
     sort (remdups (sort datapoint_identifiers @ sort nodes_identifiers))"

definition compute_remap ::
    "int list \<Rightarrow> int list \<Rightarrow> int list \<Rightarrow> py_error + (int \<rightharpoonup> int)" where
  "compute_remap nodes_identifiers datapoint_identifiers candidates =
     (let existing_nodes_identifiers_set = set (sort nodes_identifiers);
          in_use_identifiers = in_use nodes_identifiers datapoint_identifiers
      in if in_use_identifiers = [] then Inl IndexError
         else Inr (identifier_map
                (remap_loop existing_nodes_identifiers_set candidates
                   \<lparr>available_identifiers = gap_list in_use_identifiers,
                    max_identifier = last in_use_identifiers,
                    identifier_map = Map.empty\<rparr>)))"

text \<open>
  The whole of lines 18 to 40: nothing is renumbered unless both nodesets are non-empty,
  and the candidates are the datapoints themselves, in the iterator's order.
\<close>

definition convert_nodes_to_datapoints_map ::
    "int list \<Rightarrow> int list \<Rightarrow> py_error + (int \<rightharpoonup> int)" where
  "convert_nodes_to_datapoints_map nodes_identifiers datapoint_identifiers =
     (if length nodes_identifiers > 0 \<and> length datapoint_identifiers > 0
      then compute_remap nodes_identifiers datapoint_identifiers datapoint_identifiers
      else Inr Map.empty)"

section \<open>group.py: identifier ranges\<close>

subsection \<open>\<open>identifier_ranges_fix\<close>\<close>

text \<open>\<open>list.pop(i)\<close> for an index in range.\<close>

definition pop_at :: "nat \<Rightarrow> 'a list \<Rightarrow> 'a list" where
  "pop_at i xs = take i xs @ drop (Suc i) xs"

text \<open>
  The \<open>while i < len(identifier_ranges)\<close> loop, on the index and the list. The loop starts
  at \<open>i = 1\<close> and never lowers \<open>i\<close>, so \<open>i - 1\<close> is a valid index wherever it is read.
\<close>

function fix_loop :: "nat \<Rightarrow> identifier_range list \<Rightarrow> identifier_range list" where
  "fix_loop i rs =
     (if i < length rs then
        (if fst (rs ! i) \<le> snd (rs ! (i - 1)) + 1 then
           fix_loop i
             (pop_at i
               (if snd (rs ! i) > snd (rs ! (i - 1))
                then rs[i - 1 := (fst (rs ! (i - 1)), snd (rs ! i))]
                else rs))
         else fix_loop (i + 1) rs)
      else rs)"
  by pat_completeness auto
termination
  by (relation "measure (\<lambda>(i, rs). length rs - i)") (auto simp: pop_at_def)

text \<open>
  \<open>identifier_ranges_fix\<close> changes its argument in place and returns nothing; the model
  returns the list as it is after the call.
\<close>

definition identifier_ranges_fix :: "identifier_range list \<Rightarrow> identifier_range list" where
  "identifier_ranges_fix identifier_ranges = fix_loop 1 (sort identifier_ranges)"

subsection \<open>\<open>identifier_ranges_from_string\<close>\<close>

text \<open>
  \<open>str.isspace\<close>, \<open>str.isdigit\<close> and the characters \<open>int\<close> accepts as digits, on the code
  points below 256. The superscripts two, three and one (178, 179, 185) are digits for
  \<open>isdigit\<close> and are refused by \<open>int\<close>.
\<close>

definition isspace :: "char \<Rightarrow> bool" where
  "isspace c = (let n = (of_char c :: nat) in
     (9 \<le> n \<and> n \<le> 13) \<or> (28 \<le> n \<and> n \<le> 32) \<or> n = 133 \<or> n = 160)"

definition isdecimal :: "char \<Rightarrow> bool" where
  "isdecimal c = (let n = (of_char c :: nat) in 48 \<le> n \<and> n \<le> 57)"

definition isdigit :: "char \<Rightarrow> bool" where
  "isdigit c = (let n = (of_char c :: nat) in isdecimal c \<or> n = 178 \<or> n = 179 \<or> n = 185)"

definition strip :: "string \<Rightarrow> string" where
  "strip s = rev (dropWhile isspace (rev (dropWhile isspace s)))"

text \<open>\<open>str.split(sep)\<close> for a separator of one character: never the empty list.\<close>

fun split_on :: "char \<Rightarrow> string \<Rightarrow> string list" where
  "split_on sep [] = [[]]"
| "split_on sep (c # cs) =
     (if c = sep then [] # split_on sep cs
      else (c # hd (split_on sep cs)) # tl (split_on sep cs))"

text \<open>
  Lines 108 to 113: strip, then cut at the first character that is not a digit.
\<close>

definition clean_endpoint :: "string \<Rightarrow> string" where
  "clean_endpoint e = takeWhile isdigit (strip e)"

definition decimal_value :: "string \<Rightarrow> int" where
  "decimal_value s = foldl (\<lambda>acc c. 10 * acc + (int (of_char c) - 48)) 0 s"

text \<open>
  The interpreter's limit on the number of digits \<open>int\<close> reads and \<open>str\<close> writes, at its
  default (\<open>sys.int_info.default_max_str_digits\<close>): both raise \<open>ValueError\<close> beyond it.
\<close>

definition int_max_str_digits :: nat where
  "int_max_str_digits = 4300"

text \<open>
  \<open>int(s)\<close> on the strings this code passes to it, which hold \<open>isdigit\<close> characters only:
  \<open>ValueError\<close> on the empty string, on a superscript digit, and on more than
  \<open>int_max_str_digits\<close> digits (leading zeros counted).
\<close>

definition py_int :: "string \<Rightarrow> py_error + int" where
  "py_int s = (if s \<noteq> [] \<and> list_all isdecimal s \<and> length s \<le> int_max_str_digits
               then Inr (decimal_value s)
               else Inl ValueError)"

text \<open>The body of the \<open>try\<close> block, lines 104 to 122, for one token.\<close>

definition parse_token :: "string \<Rightarrow> py_error + identifier_range" where
  "parse_token identifier_range_string =
     (let identifier_range_ends = map clean_endpoint (split_on CHR ''-'' identifier_range_string)
      in case identifier_range_ends of
           [] \<Rightarrow> Inl IndexError
         | e0 # es \<Rightarrow>
            (case py_int e0 of
               Inl err \<Rightarrow> Inl err
             | Inr start \<Rightarrow>
                (case es of
                   [] \<Rightarrow> Inr (start, start)
                 | e1 # _ \<Rightarrow>
                    (case py_int e1 of
                       Inl err \<Rightarrow> Inl err
                     | Inr stop \<Rightarrow>
                        if stop < start then Inr (stop, start) else Inr (start, stop)))))"

text \<open>
  The \<open>for\<close> loop over the tokens: \<open>except: pass\<close> leaves the list as it is when the body
  raised, and the body appends only as its last action.
\<close>

fun collect_ranges :: "string list \<Rightarrow> identifier_range list \<Rightarrow> identifier_range list" where
  "collect_ranges [] identifier_ranges = identifier_ranges"
| "collect_ranges (t # ts) identifier_ranges =
     (case parse_token t of
        Inl err \<Rightarrow> collect_ranges ts identifier_ranges
      | Inr r \<Rightarrow> collect_ranges ts (identifier_ranges @ [r]))"

definition raw_ranges :: "string \<Rightarrow> identifier_range list" where
  "raw_ranges identifier_ranges_string =
     collect_ranges (split_on CHR '','' identifier_ranges_string) []"

definition identifier_ranges_from_string :: "string \<Rightarrow> identifier_range list" where
  "identifier_ranges_from_string identifier_ranges_string =
     identifier_ranges_fix (raw_ranges identifier_ranges_string)"

subsection \<open>\<open>identifier_ranges_to_string\<close>\<close>

text \<open>
  \<open>str(n)\<close> for an integer: decimal digits, with a minus sign when negative, and
  \<open>ValueError\<close> when there are more than \<open>int_max_str_digits\<close> digits. Nothing in
  \<open>identifier_ranges_to_string\<close> catches that error, so it is the function's result.
\<close>

definition digit_char :: "nat \<Rightarrow> char" where
  "digit_char d = char_of (48 + d)"

fun digits_of_nat :: "nat \<Rightarrow> string" where
  "digits_of_nat n =
     (if n < 10 then [digit_char n] else digits_of_nat (n div 10) @ [digit_char (n mod 10)])"

declare digits_of_nat.simps [simp del]

definition py_str :: "int \<Rightarrow> py_error + string" where
  "py_str i =
     (let ds = digits_of_nat (nat \<bar>i\<bar>)
      in if length ds > int_max_str_digits then Inl ValueError
         else Inr (if i < 0 then CHR ''-'' # ds else ds))"

text \<open>Lines 139 to 142: the text of one range, its operands evaluated left to right.\<close>

definition range_string :: "identifier_range \<Rightarrow> py_error + string" where
  "range_string identifier_range =
     (if fst identifier_range = snd identifier_range then py_str (fst identifier_range)
      else (case py_str (fst identifier_range) of
              Inl err \<Rightarrow> Inl err
            | Inr start_string \<Rightarrow>
               (case py_str (snd identifier_range) of
                  Inl err \<Rightarrow> Inl err
                | Inr stop_string \<Rightarrow> Inr (start_string @ ''-'' @ stop_string))))"

fun to_string_loop ::
    "identifier_range list \<Rightarrow> bool \<Rightarrow> string \<Rightarrow> py_error + string" where
  "to_string_loop [] first identifier_ranges_string = Inr identifier_ranges_string"
| "to_string_loop (r # rs) first identifier_ranges_string =
     (case range_string r of
        Inl err \<Rightarrow> Inl err
      | Inr identifier_range_string \<Rightarrow>
         (if first then to_string_loop rs False identifier_range_string
          else to_string_loop rs False
                 (identifier_ranges_string @ '','' @ identifier_range_string)))"

definition identifier_ranges_to_string :: "identifier_range list \<Rightarrow> py_error + string" where
  "identifier_ranges_to_string identifier_ranges = to_string_loop identifier_ranges True []"

subsection \<open>\<open>domain_iterator_to_identifier_ranges\<close>\<close>

text \<open>
  The iterator is the list of the identifiers it yields, in order. The inner \<open>while\<close> loop
  carries \<open>start\<close>, \<open>stop\<close> and the list built so far.
\<close>

fun extract_loop ::
    "int \<Rightarrow> int \<Rightarrow> int list \<Rightarrow> identifier_range list \<Rightarrow> identifier_range list" where
  "extract_loop start stop [] identifier_ranges = identifier_ranges @ [(start, stop)]"
| "extract_loop start stop (identifier # rest) identifier_ranges =
     (if identifier = stop + 1 then extract_loop start identifier rest identifier_ranges
      else extract_loop identifier identifier rest (identifier_ranges @ [(start, stop)]))"

definition domain_iterator_to_identifier_ranges :: "int list \<Rightarrow> identifier_range list" where
  "domain_iterator_to_identifier_ranges iterator =
     (case iterator of
        [] \<Rightarrow> []
      | first # rest \<Rightarrow> extract_loop first first rest [])"

section \<open>Notions the properties are stated with\<close>

text \<open>The identifiers a range list covers.\<close>

definition covered :: "identifier_range list \<Rightarrow> int set" where
  "covered rs = (\<Union>r \<in> set rs. {fst r .. snd r})"

text \<open>
  The canonical form of the data model: every range has \<open>start \<le> stop\<close>, and each range
  starts more than one past the stop of the range before it (ascending, non-overlapping,
  non-adjacent).
\<close>

fun normalized :: "identifier_range list \<Rightarrow> bool" where
  "normalized [] = True"
| "normalized [r] = (fst r \<le> snd r)"
| "normalized (r # q # rs) = (fst r \<le> snd r \<and> snd r + 1 < fst q \<and> normalized (q # rs))"

text \<open>
  The scan of \<open>identifier_ranges_fix\<close> as a recursion on the list, with the range at
  \<open>i - 1\<close> carried as an argument; \<open>fix_loop\<close> is shown to compute it.
\<close>

fun merge_scan :: "identifier_range \<Rightarrow> identifier_range list \<Rightarrow> identifier_range list" where
  "merge_scan p [] = [p]"
| "merge_scan p (r # rs) =
     (if fst r \<le> snd p + 1
      then merge_scan (if snd r > snd p then (fst p, snd r) else p) rs
      else p # merge_scan r rs)"

text \<open>What one token contributes to the collected list: nothing when the body raised.\<close>

definition token_range :: "string \<Rightarrow> identifier_range option" where
  "token_range t = (case parse_token t of Inl err \<Rightarrow> None | Inr r \<Rightarrow> Some r)"

text \<open>
  The text \<open>range_string\<close> returns for a range of non-negative identifiers when nothing
  raises.
\<close>

definition range_text :: "identifier_range \<Rightarrow> string" where
  "range_text r =
     (if fst r = snd r then digits_of_nat (nat (fst r))
      else digits_of_nat (nat (fst r)) @ ''-'' @ digits_of_nat (nat (snd r)))"

text \<open>The state the loop of \<open>convert_nodes_to_datapoints\<close> starts in.\<close>

definition initial_state :: "int list \<Rightarrow> int list \<Rightarrow> remap_state" where
  "initial_state a b =
     \<lparr>available_identifiers = gap_list (in_use a b),
      max_identifier = last (in_use a b),
      identifier_map = Map.empty\<rparr>"

text \<open>
  The invariant of that loop, for the set \<open>nodes\<close> of node identifiers, the set \<open>used\<close>
  of identifiers in use and their maximum \<open>hi\<close>: the available identifiers are distinct,
  unused and at most \<open>hi\<close>; every identifier handed out is unused, no longer available and
  at most the high-water mark, and above \<open>hi\<close> when its datapoint did not collide; and no
  identifier is handed out twice.
\<close>

definition remap_inv :: "int set \<Rightarrow> int set \<Rightarrow> int \<Rightarrow> remap_state \<Rightarrow> bool" where
  "remap_inv nodes used hi s \<longleftrightarrow>
     distinct (available_identifiers s) \<and>
     (\<forall>a \<in> set (available_identifiers s). a \<notin> used \<and> a \<le> hi) \<and>
     (\<forall>u \<in> used. u \<le> hi) \<and>
     hi \<le> max_identifier s \<and>
     (\<forall>k v. identifier_map s k = Some v \<longrightarrow>
        v \<notin> used \<and> v \<notin> set (available_identifiers s) \<and> v \<le> max_identifier s \<and>
        (k \<notin> nodes \<longrightarrow> hi < v)) \<and>
     (\<forall>k k' v. identifier_map s k = Some v \<and> identifier_map s k' = Some v \<longrightarrow> k = k')"

text \<open>The number of colliding candidates before position \<open>i\<close> of the candidate list.\<close>

definition colliding_before :: "int set \<Rightarrow> int list \<Rightarrow> nat \<Rightarrow> nat" where
  "colliding_before nodes cs i = length (filter (\<lambda>c. c \<in> nodes) (take i cs))"

section \<open>The normalizer: \<open>fix_loop\<close> computes \<open>merge_scan\<close>\<close>

lemma fix_loop_merge_scan:
  "fix_loop (Suc (length pre)) (pre @ p # rest) = pre @ merge_scan p rest"
proof (induction rest arbitrary: pre p)
  case Nil
  show ?case by (subst fix_loop.simps) simp
next
  case (Cons r rest)
  let ?rs = "pre @ p # r # rest"
  have i: "Suc (length pre) < length ?rs" by simp
  have ri: "?rs ! Suc (length pre) = r"
    by (simp add: nth_append)
  have rp: "?rs ! (Suc (length pre) - 1) = p"
    by (simp add: nth_append)
  show ?case
  proof (cases "fst r \<le> snd p + 1")
    case True
    define p' where "p' = (if snd r > snd p then (fst p, snd r) else p)"
    have popped: "pop_at (Suc (length pre))
            (if snd r > snd p then ?rs[Suc (length pre) - 1 := (fst p, snd r)] else ?rs)
          = pre @ p' # rest"
      by (simp add: pop_at_def p'_def list_update_append)
    have "fix_loop (Suc (length pre)) ?rs =
          fix_loop (Suc (length pre)) (pop_at (Suc (length pre))
            (if snd r > snd p then ?rs[Suc (length pre) - 1 := (fst p, snd r)] else ?rs))"
      by (subst fix_loop.simps) (simp only: i ri rp True if_True)
    also have "\<dots> = fix_loop (Suc (length pre)) (pre @ p' # rest)"
      by (simp only: popped)
    also have "\<dots> = pre @ merge_scan p' rest" by (rule Cons.IH)
    finally show ?thesis using True by (simp add: p'_def)
  next
    case False
    have "fix_loop (Suc (length pre)) ?rs = fix_loop (Suc (length pre) + 1) ?rs"
      by (subst fix_loop.simps) (simp only: i ri rp False if_True if_False)
    also have "\<dots> = fix_loop (Suc (length (pre @ [p]))) ((pre @ [p]) @ r # rest)"
      by simp
    also have "\<dots> = (pre @ [p]) @ merge_scan r rest" by (rule Cons.IH)
    finally show ?thesis using False by simp
  qed
qed

lemma fix_loop_short: "length rs \<le> 1 \<Longrightarrow> fix_loop 1 rs = rs"
  by (subst fix_loop.simps) simp

lemma identifier_ranges_fix_scan:
  "identifier_ranges_fix rs = (case sort rs of [] \<Rightarrow> [] | p # ps \<Rightarrow> merge_scan p ps)"
proof (cases "sort rs")
  case Nil
  then show ?thesis by (simp add: identifier_ranges_fix_def fix_loop_short)
next
  case (Cons p ps)
  then show ?thesis
    using fix_loop_merge_scan [of "[]" p ps] by (simp add: identifier_ranges_fix_def)
qed

lemma merge_scan_hd: "\<exists>e rest. merge_scan p rs = (fst p, e) # rest"
proof (induction rs arbitrary: p)
  case Nil
  show ?case by (cases p) simp
next
  case (Cons r rs)
  show ?case
  proof (cases "fst r \<le> snd p + 1")
    case True
    then show ?thesis using Cons.IH [of "if snd r > snd p then (fst p, snd r) else p"]
      by (auto split: if_splits)
  next
    case False
    then show ?thesis by (cases p) simp
  qed
qed

lemma covered_Cons: "covered (r # rs) = {fst r .. snd r} \<union> covered rs"
  by (simp add: covered_def)

lemma covered_Nil: "covered [] = {}"
  by (simp add: covered_def)

lemma merge_scan_covered:
  "sorted (map fst (p # rs)) \<Longrightarrow> list_all (\<lambda>r. fst r \<le> snd r) (p # rs)
   \<Longrightarrow> covered (merge_scan p rs) = covered (p # rs)"
proof (induction rs arbitrary: p)
  case Nil
  show ?case by simp
next
  case (Cons r rs)
  show ?case
  proof (cases "fst r \<le> snd p + 1")
    case True
    let ?p' = "if snd r > snd p then (fst p, snd r) else p"
    have s: "sorted (map fst (?p' # rs))" using Cons.prems(1) by auto
    have v: "list_all (\<lambda>r. fst r \<le> snd r) (?p' # rs)" using Cons.prems by auto
    have "covered (merge_scan p (r # rs)) = covered (?p' # rs)"
      using True Cons.IH [OF s v] by simp
    also have "\<dots> = covered (p # r # rs)"
      using True Cons.prems by (auto simp: covered_Cons)
    finally show ?thesis .
  next
    case False
    have s: "sorted (map fst (r # rs))" using Cons.prems(1) by auto
    have v: "list_all (\<lambda>r. fst r \<le> snd r) (r # rs)" using Cons.prems by auto
    show ?thesis using False Cons.IH [OF s v] by (simp add: covered_Cons)
  qed
qed

lemma merge_scan_normalized:
  "sorted (map fst (p # rs)) \<Longrightarrow> list_all (\<lambda>r. fst r \<le> snd r) (p # rs)
   \<Longrightarrow> normalized (merge_scan p rs)"
proof (induction rs arbitrary: p)
  case Nil
  then show ?case by simp
next
  case (Cons r rs)
  show ?case
  proof (cases "fst r \<le> snd p + 1")
    case True
    let ?p' = "if snd r > snd p then (fst p, snd r) else p"
    have s: "sorted (map fst (?p' # rs))" using Cons.prems(1) by auto
    have v: "list_all (\<lambda>r. fst r \<le> snd r) (?p' # rs)" using Cons.prems by auto
    show ?thesis using True Cons.IH [OF s v] by simp
  next
    case False
    have s: "sorted (map fst (r # rs))" using Cons.prems(1) by auto
    have v: "list_all (\<lambda>r. fst r \<le> snd r) (r # rs)" using Cons.prems by auto
    obtain e rest where m: "merge_scan r rs = (fst r, e) # rest"
      using merge_scan_hd by blast
    show ?thesis using False Cons.IH [OF s v] Cons.prems(2) by (simp add: m)
  qed
qed

lemma merge_scan_length: "length (merge_scan p rs) \<le> Suc (length rs)"
  by (induction rs arbitrary: p) (auto intro: le_SucI)

lemma sorted_map_fst: "sorted (rs :: identifier_range list) \<Longrightarrow> sorted (map fst rs)"
  by (induction rs) (auto simp: less_eq_prod_def)

lemma normalized_tail: "normalized (r # rs) \<Longrightarrow> fst r \<le> snd r \<and> normalized rs"
  by (cases rs) auto

lemma normalized_above:
  "normalized (r # rs) \<Longrightarrow> x \<in> covered rs \<Longrightarrow> snd r + 1 < x"
proof (induction rs arbitrary: r)
  case Nil
  then show ?case by (simp add: covered_Nil)
next
  case (Cons q rs)
  from Cons.prems(1) have rq: "snd r + 1 < fst q" and q: "fst q \<le> snd q"
    and n: "normalized (q # rs)"
    using normalized_tail [of q rs] by auto
  from Cons.prems(2) consider "fst q \<le> x" | "x \<in> covered rs"
    by (auto simp: covered_Cons)
  then show ?case
  proof cases
    case 1
    then show ?thesis using rq by simp
  next
    case 2
    then have "snd q + 1 < x" using Cons.IH [OF n] by simp
    then show ?thesis using rq q by simp
  qed
qed

lemma normalized_valid: "normalized rs \<Longrightarrow> list_all (\<lambda>r. fst r \<le> snd r) rs"
  by (induction rs rule: normalized.induct) auto

lemma normalized_unique:
  "normalized xs \<Longrightarrow> normalized ys \<Longrightarrow> covered xs = covered ys \<Longrightarrow> xs = ys"
proof (induction xs arbitrary: ys)
  case Nil
  show ?case
  proof (cases ys)
    case Nil
    then show ?thesis by simp
  next
    case (Cons q ys')
    then have "fst q \<in> covered ys"
      using Nil.prems(2) normalized_tail [of q ys'] by (simp add: covered_Cons)
    then show ?thesis using Nil.prems(3) by (simp add: covered_Nil)
  qed
next
  case (Cons r xs')
  have r: "fst r \<le> snd r" and nx: "normalized xs'"
    using normalized_tail [OF Cons.prems(1)] by simp_all
  have rin: "fst r \<in> covered (r # xs')" using r by (simp add: covered_Cons)
  show ?case
  proof (cases ys)
    case Nil
    then show ?thesis using rin Cons.prems(3) by (simp add: covered_Nil)
  next
    case ys: (Cons q ys')
    have nq: "normalized (q # ys')" using Cons.prems(2) ys by simp
    have q: "fst q \<le> snd q" and ny: "normalized ys'"
      using normalized_tail [OF nq] by simp_all
    have ax: "\<And>x. x \<in> covered xs' \<Longrightarrow> snd r + 1 < x"
      using normalized_above [OF Cons.prems(1)] .
    have ay: "\<And>x. x \<in> covered ys' \<Longrightarrow> snd q + 1 < x"
      using normalized_above [OF nq] .
    have "{fst r .. snd r} \<union> covered xs' = {fst q .. snd q} \<union> covered ys'"
      using Cons.prems(3) ys by (simp add: covered_Cons)
    then have mem: "(fst r \<le> x \<and> x \<le> snd r \<or> x \<in> covered xs') =
                    (fst q \<le> x \<and> x \<le> snd q \<or> x \<in> covered ys')" for x
      by (simp add: set_eq_iff)
    have qr: "fst q \<le> fst r"
      using mem [of "fst r"] r q ay [of "fst r"] by linarith
    have rq: "fst r \<le> fst q"
      using mem [of "fst q"] r q ax [of "fst q"] by linarith
    have f: "fst r = fst q" using qr rq by simp
    have s1: "\<not> snd r < snd q"
      using mem [of "snd r + 1"] f r q ax [of "snd r + 1"] by auto
    have s2: "\<not> snd q < snd r"
      using mem [of "snd q + 1"] f r q ay [of "snd q + 1"] by auto
    have s: "snd r = snd q" using s1 s2 by simp
    have rq_eq: "r = q" using f s by (simp add: prod_eq_iff)
    have "x \<in> covered xs' \<longleftrightarrow> x \<in> covered ys'" for x
      using mem [of x] f s ax [of x] ay [of x] by auto
    then have "covered xs' = covered ys'" by (simp add: set_eq_iff)
    then have "xs' = ys'" using Cons.IH [OF nx ny] by simp
    then show ?thesis using rq_eq ys by simp
  qed
qed

lemma covered_sort: "covered (sort rs) = covered rs"
  by (simp add: covered_def)

lemma sort_Cons_facts:
  assumes "sort rs = p # ps"
  shows "sorted (map fst (p # ps))"
    and "list_all (\<lambda>r. fst r \<le> snd r) rs \<Longrightarrow> list_all (\<lambda>r. fst r \<le> snd r) (p # ps)"
    and "covered (p # ps) = covered rs"
    and "length rs = Suc (length ps)"
proof -
  have "sorted (map fst (sort rs))" by (rule sorted_map_fst) simp
  then show "sorted (map fst (p # ps))" unfolding assms .
  have "set (p # ps) = set rs" using assms by (metis set_sort)
  then show "list_all (\<lambda>r. fst r \<le> snd r) rs \<Longrightarrow> list_all (\<lambda>r. fst r \<le> snd r) (p # ps)"
    by (simp only: list_all_iff)
  show "covered (p # ps) = covered rs" using covered_sort [of rs] unfolding assms .
  show "length rs = Suc (length ps)" using assms by (metis length_sort length_Cons)
qed

lemma fix_covered:
  assumes "list_all (\<lambda>r. fst r \<le> snd r) rs"
  shows "covered (identifier_ranges_fix rs) = covered rs"
proof (cases "sort rs")
  case Nil
  then have "rs = []" by (metis length_sort length_0_conv)
  then show ?thesis by (simp add: identifier_ranges_fix_scan)
next
  case (Cons p ps)
  have "covered (identifier_ranges_fix rs) = covered (p # ps)"
    using merge_scan_covered [OF sort_Cons_facts(1) [OF Cons] sort_Cons_facts(2) [OF Cons assms]]
    by (simp add: identifier_ranges_fix_scan Cons)
  then show ?thesis by (simp only: sort_Cons_facts(3) [OF Cons])
qed

lemma fix_normalized:
  assumes "list_all (\<lambda>r. fst r \<le> snd r) rs"
  shows "normalized (identifier_ranges_fix rs)"
proof (cases "sort rs")
  case Nil
  then show ?thesis by (simp add: identifier_ranges_fix_scan)
next
  case (Cons p ps)
  show ?thesis
    using merge_scan_normalized [OF sort_Cons_facts(1) [OF Cons] sort_Cons_facts(2) [OF Cons assms]]
    by (simp add: identifier_ranges_fix_scan Cons)
qed

lemma fix_length: "length (identifier_ranges_fix rs) \<le> length rs"
proof (cases "sort rs")
  case Nil
  then show ?thesis by (simp add: identifier_ranges_fix_scan)
next
  case (Cons p ps)
  show ?thesis
    using merge_scan_length [of p ps] sort_Cons_facts(4) [OF Cons]
    by (simp add: identifier_ranges_fix_scan Cons)
qed

lemma fix_normalized_id: "normalized rs \<Longrightarrow> identifier_ranges_fix rs = rs"
  using normalized_unique fix_normalized fix_covered normalized_valid by blast

lemma fix_two:
  "identifier_ranges_fix [p, q] = (if p \<le> q then merge_scan p [q] else merge_scan q [p])"
  by (simp add: identifier_ranges_fix_scan)


section \<open>Properties of \<open>identifier_ranges_fix\<close>\<close>

text \<open>
  C3, as stated: for \<open>a \<le> b\<close>, \<open>c \<le> d\<close> and \<open>c \<le> b + 1\<close>, normalizing
  \<open>[[a,b],[c,d]]\<close> yields \<open>[[min(a,c), max(b,d)]]\<close>. This fails when the second range lies
  wholly below the first with a gap between them: \<open>[[10,20],[1,2]]\<close> is sorted to
  \<open>[[1,2],[10,20]]\<close> and nothing is merged, since \<open>10 > 2 + 1\<close>.
\<close>

theorem merge_two_ranges_gap_below_counterexample:
  "(10::int) \<le> 20 \<and> (1::int) \<le> 2 \<and> (1::int) \<le> 20 + 1 \<and>
   identifier_ranges_fix [(10, 20), (1, 2)] = [(1, 2), (10, 20)] \<and>
   identifier_ranges_fix [(10, 20), (1, 2)] \<noteq> [(min 10 1, max 20 2)]"
  by (simp add: fix_two less_eq_prod_def)

text \<open>
  C3, amended: for any two ranges \<open>[a,b]\<close> and \<open>[c,d]\<close> with \<open>a \<le> b\<close>, \<open>c \<le> d\<close>,
  \<open>c \<le> b + 1\<close> and also \<open>a \<le> d + 1\<close> (the two ranges overlap or are adjacent, whichever
  comes first), normalizing \<open>[[a,b],[c,d]]\<close> yields the single range
  \<open>[[min(a,c), max(b,d)]]\<close>.
\<close>

theorem merge_correctness_two_ranges:
  assumes "a \<le> b" and "c \<le> d" and "c \<le> b + 1" and "a \<le> d + 1"
  shows "identifier_ranges_fix [(a, b), (c, d)] = [(min a c, max b d)]"
proof (cases "(a, b) \<le> (c, d)")
  case True
  then have "a \<le> c" by (auto simp: less_eq_prod_def)
  then show ?thesis using True assms by (simp add: fix_two min_def max_def)
next
  case False
  then have "c \<le> a" by (auto simp: less_eq_prod_def)
  then show ?thesis using False assms by (simp add: fix_two min_def max_def)
qed


theorem merge_correctness_two_ranges_witness:
  "(1::int) \<le> 5 \<and> (3::int) \<le> 9 \<and> (3::int) \<le> 5 + 1 \<and> (1::int) \<le> 9 + 1 \<and>
   identifier_ranges_fix [(1, 5), (3, 9)] = [(1, 9)]"
  using merge_correctness_two_ranges [of 1 5 3 9] by simp

text \<open>
  C8: for every range list whose ranges all satisfy \<open>start \<le> stop\<close>, normalization
  leaves the covered set of integers unchanged, its result is in canonical form (ascending,
  non-overlapping, non-adjacent), it is the only canonical range list covering that set, and
  no list of ranges with \<open>start \<le> stop\<close> covering that set is shorter.
\<close>

theorem normalization_coverage_canonical:
  "list_all (\<lambda>r. fst r \<le> snd r) rs \<Longrightarrow>
     covered (identifier_ranges_fix rs) = covered rs \<and>
     normalized (identifier_ranges_fix rs) \<and>
     (\<forall>ys. normalized ys \<and> covered ys = covered rs \<longrightarrow> ys = identifier_ranges_fix rs) \<and>
     (\<forall>zs. list_all (\<lambda>r. fst r \<le> snd r) zs \<and> covered zs = covered rs
           \<longrightarrow> length (identifier_ranges_fix rs) \<le> length zs)"
proof (intro conjI allI impI)
  assume v: "list_all (\<lambda>r. fst r \<le> snd r) rs"
  show c: "covered (identifier_ranges_fix rs) = covered rs" using v by (rule fix_covered)
  show n: "normalized (identifier_ranges_fix rs)" using v by (rule fix_normalized)
  show "ys = identifier_ranges_fix rs" if "normalized ys \<and> covered ys = covered rs" for ys
    using that normalized_unique [OF _ n, of ys] c by simp
  show "length (identifier_ranges_fix rs) \<le> length zs"
    if "list_all (\<lambda>r. fst r \<le> snd r) zs \<and> covered zs = covered rs" for zs
  proof -
    have "identifier_ranges_fix zs = identifier_ranges_fix rs"
      using normalized_unique [OF fix_normalized n, of zs] fix_covered [of zs] c that by simp
    then show ?thesis using fix_length [of zs] by simp
  qed
qed


theorem normalization_coverage_canonical_witness:
  "list_all (\<lambda>r. fst r \<le> snd r) [(5, 9), (1, 2), (3, 3 :: int)] \<and>
   covered (identifier_ranges_fix [(5, 9), (1, 2), (3, 3)]) = covered [(5, 9), (1, 2), (3, 3)] \<and>
   normalized (identifier_ranges_fix [(5, 9), (1, 2), (3, 3)]) \<and>
   identifier_ranges_fix [(5, 9), (1, 2), (3, 3)] = [(1, 3), (5, 9)]"
proof -
  let ?rs = "[(5, 9), (1, 2), (3, 3 :: int)]"
  have v: "list_all (\<lambda>r. fst r \<le> snd r) ?rs" by simp
  have n: "normalized [(1, 3), (5, 9 :: int)]" by simp
  have c: "covered [(1, 3), (5, 9 :: int)] = covered ?rs"
    by (auto simp: covered_def)
  note t = normalization_coverage_canonical [OF v]
  from t have u: "\<forall>ys. normalized ys \<and> covered ys = covered ?rs \<longrightarrow> ys = identifier_ranges_fix ?rs"
    by blast
  have "[(1, 3), (5, 9)] = identifier_ranges_fix ?rs" using u n c by blast
  then show ?thesis using t v by simp
qed

section \<open>Range extraction from an ascending identifier sequence\<close>

lemma extract_loop_acc:
  "extract_loop start stop rest acc = acc @ extract_loop start stop rest []"
proof (induction rest arbitrary: start stop acc)
  case Nil
  show ?case by simp
next
  case (Cons x rest)
  show ?case
  proof (cases "x = stop + 1")
    case True
    then show ?thesis using Cons.IH [of start x acc] by simp
  next
    case False
    then show ?thesis
      using Cons.IH [of x x "acc @ [(start, stop)]"] Cons.IH [of x x "[(start, stop)]"]
      by simp
  qed
qed

lemma extract_loop_hd: "\<exists>e rs. extract_loop start stop rest [] = (start, e) # rs"
proof (induction rest arbitrary: stop)
  case Nil
  show ?case by simp
next
  case (Cons x rest)
  show ?case
  proof (cases "x = stop + 1")
    case True
    then show ?thesis using Cons.IH [of x] by simp
  next
    case False
    then show ?thesis using extract_loop_acc [of x x rest "[(start, stop)]"] by simp
  qed
qed

lemma extract_loop_correct:
  "start \<le> stop \<Longrightarrow> sorted_wrt (<) (stop # rest) \<Longrightarrow>
   normalized (extract_loop start stop rest []) \<and>
   covered (extract_loop start stop rest []) = {start .. stop} \<union> set rest"
proof (induction rest arbitrary: start stop)
  case Nil
  then show ?case by (simp add: covered_def)
next
  case (Cons x rest)
  have lt: "stop < x" and sx: "sorted_wrt (<) (x # rest)" using Cons.prems(2) by auto
  show ?case
  proof (cases "x = stop + 1")
    case True
    have le: "start \<le> x" using Cons.prems(1) lt by simp
    have "{start .. x} = insert x {start .. stop}" using True Cons.prems(1) by auto
    then show ?thesis using True Cons.IH [OF le sx] by simp
  next
    case False
    obtain e rs where h: "extract_loop x x rest [] = (x, e) # rs"
      using extract_loop_hd by blast
    have ih: "normalized ((x, e) # rs) \<and> covered ((x, e) # rs) = {x .. x} \<union> set rest"
      using Cons.IH [OF order_refl sx] h by simp
    have eq: "extract_loop start stop (x # rest) [] = (start, stop) # (x, e) # rs"
      using False extract_loop_acc [of x x rest "[(start, stop)]"] h by simp
    have "normalized ((start, stop) # (x, e) # rs)"
      using ih Cons.prems(1) lt False by simp
    moreover have "covered ((start, stop) # (x, e) # rs) = {start .. stop} \<union> set (x # rest)"
      using ih covered_Cons [of "(start, stop)" "(x, e) # rs"] by auto
    ultimately show ?thesis by (simp only: eq)
  qed
qed

text \<open>
  C7: for every sequence of identifiers in strictly ascending order,
  \<open>domain_iterator_to_identifier_ranges\<close> returns a range list in canonical form that covers
  exactly the identifiers of the sequence; the empty sequence yields the empty list, and
  \<open>[1,2,3,55,66,67,68,69,70]\<close> yields \<open>[[1,3],[55,55],[66,70]]\<close>.
\<close>

theorem extraction_correct:
  "sorted_wrt (<) xs \<Longrightarrow>
     normalized (domain_iterator_to_identifier_ranges xs) \<and>
     covered (domain_iterator_to_identifier_ranges xs) = set xs \<and>
     domain_iterator_to_identifier_ranges [] = [] \<and>
     domain_iterator_to_identifier_ranges [1, 2, 3, 55, 66, 67, 68, 69, 70]
       = [(1, 3), (55, 55), (66, 70)]"
proof (cases xs)
  case Nil
  then show ?thesis by (simp add: domain_iterator_to_identifier_ranges_def covered_Nil)
next
  case (Cons x rest)
  assume "sorted_wrt (<) xs"
  then have "sorted_wrt (<) (x # rest)" using Cons by simp
  from extract_loop_correct [OF order_refl this] show ?thesis
    using Cons by (simp add: domain_iterator_to_identifier_ranges_def)
qed

theorem extraction_correct_witness:
  "sorted_wrt (<) [4, 5, 9 :: int] \<and>
   normalized (domain_iterator_to_identifier_ranges [4, 5, 9]) \<and>
   covered (domain_iterator_to_identifier_ranges [4, 5, 9]) = {4, 5, 9} \<and>
   domain_iterator_to_identifier_ranges [4, 5, 9] = [(4, 5), (9, 9)]"
  using extraction_correct [of "[4, 5, 9]"] by (simp add: domain_iterator_to_identifier_ranges_def)

section \<open>Parsing: splitting, collecting and decimal digits\<close>

subsection \<open>Splitting\<close>

lemma split_on_nonempty: "split_on sep s \<noteq> []"
  by (induction s) auto

lemma split_on_no_sep: "sep \<notin> set t \<Longrightarrow> split_on sep t = [t]"
  by (induction t) auto

lemma split_on_append:
  "split_on sep (s1 @ sep # s2) = split_on sep s1 @ split_on sep s2"
proof (induction s1)
  case Nil
  show ?case by simp
next
  case (Cons c s1)
  obtain t ts where h: "split_on sep s1 = t # ts"
    using split_on_nonempty [of sep s1] by (cases "split_on sep s1") auto
  show ?case using Cons.IH h by simp
qed

subsection \<open>Collecting\<close>


lemma collect_ranges_map_filter:
  "collect_ranges ts acc = acc @ List.map_filter token_range ts"
  by (induction ts arbitrary: acc)
     (auto simp: List.map_filter_simps token_range_def split: sum.splits)

lemma raw_ranges_append:
  "raw_ranges (s1 @ CHR '','' # s2) = raw_ranges s1 @ raw_ranges s2"
  by (simp add: raw_ranges_def split_on_append collect_ranges_map_filter List.map_filter_def)

lemma raw_ranges_token:
  "CHR '','' \<notin> set t \<Longrightarrow>
   raw_ranges t = (case parse_token t of Inl err \<Rightarrow> [] | Inr r \<Rightarrow> [r])"
  by (simp add: raw_ranges_def split_on_no_sep collect_ranges_map_filter
      List.map_filter_simps token_range_def split: sum.splits)

subsection \<open>Decimal digits\<close>

lemma of_char_digit_char: "d < 10 \<Longrightarrow> (of_char (digit_char d) :: nat) = 48 + d"
  by (simp add: digit_char_def)

lemma isdecimal_digit_char: "d < 10 \<Longrightarrow> isdecimal (digit_char d)"
  by (simp add: isdecimal_def of_char_digit_char)

lemma digits_of_nat_decimal: "list_all isdecimal (digits_of_nat n)"
proof (induction n rule: digits_of_nat.induct)
  case (1 n)
  show ?case
  proof (cases "n < 10")
    case True
    then show ?thesis by (subst digits_of_nat.simps) (simp add: isdecimal_digit_char)
  next
    case False
    then show ?thesis using 1
      by (subst digits_of_nat.simps) (simp add: isdecimal_digit_char)
  qed
qed

lemma digits_of_nat_nonempty: "digits_of_nat n \<noteq> []"
  by (subst digits_of_nat.simps) simp

lemma decimal_value_snoc:
  "decimal_value (s @ [c]) = 10 * decimal_value s + (int (of_char c) - 48)"
  by (simp add: decimal_value_def)

lemma decimal_value_digits: "decimal_value (digits_of_nat n) = int n"
proof (induction n rule: digits_of_nat.induct)
  case (1 n)
  show ?case
  proof (cases "n < 10")
    case True
    then show ?thesis
      by (subst digits_of_nat.simps) (simp add: decimal_value_def of_char_digit_char)
  next
    case False
    then have "decimal_value (digits_of_nat (n div 10)) = int (n div 10)" using 1 by simp
    then show ?thesis using False
      by (subst digits_of_nat.simps)
         (simp add: decimal_value_snoc of_char_digit_char zdiv_int zmod_int)
  qed
qed

lemma digits_length_le: "0 < k \<Longrightarrow> n < 10 ^ k \<Longrightarrow> length (digits_of_nat n) \<le> k"
proof (induction k arbitrary: n)
  case 0
  then show ?case by simp
next
  case (Suc k)
  show ?case
  proof (cases "n < 10")
    case True
    then show ?thesis by (subst digits_of_nat.simps) simp
  next
    case False
    then have k: "0 < k" using Suc.prems(2) by (cases k) auto
    have "n div 10 < 10 ^ k" using Suc.prems(2) by (simp add: less_mult_imp_div_less)
    then have "length (digits_of_nat (n div 10)) \<le> k" using Suc.IH [OF k] by simp
    then show ?thesis using False by (subst digits_of_nat.simps) simp
  qed
qed

lemma digits_length_gt: "10 ^ k \<le> n \<Longrightarrow> k < length (digits_of_nat n)"
proof (induction k arbitrary: n)
  case 0
  then show ?case using digits_of_nat_nonempty [of n] by (cases "digits_of_nat n") auto
next
  case (Suc k)
  have "(10 :: nat) ^ 1 \<le> 10 ^ Suc k" by (rule power_increasing) simp_all
  then have "(10 :: nat) \<le> 10 ^ Suc k" by (simp only: power_one_right)
  then have ten: "\<not> n < 10" using Suc.prems by linarith
  have "10 ^ k \<le> n div 10" using Suc.prems by (simp add: less_eq_div_iff_mult_less_eq)
  then have "k < length (digits_of_nat (n div 10))" by (rule Suc.IH)
  then show ?case using ten by (subst digits_of_nat.simps) simp
qed

lemma limit_positive: "0 < int_max_str_digits"
  by (simp add: int_max_str_digits_def)

lemma digits_within_limit:
  "n < 10 ^ int_max_str_digits \<Longrightarrow> length (digits_of_nat n) \<le> int_max_str_digits"
  using digits_length_le [OF limit_positive] .

lemma py_int_digits:
  "n < 10 ^ int_max_str_digits \<Longrightarrow> py_int (digits_of_nat n) = Inr (int n)"
  by (simp add: py_int_def digits_of_nat_nonempty digits_of_nat_decimal decimal_value_digits
      digits_within_limit)

lemma nat_below_limit:
  "0 \<le> i \<Longrightarrow> i < 10 ^ int_max_str_digits \<Longrightarrow> nat i < 10 ^ int_max_str_digits"
  by (simp add: nat_less_iff)

lemma py_str_nonneg:
  assumes "0 \<le> i" and "i < 10 ^ int_max_str_digits"
  shows "py_str i = Inr (digits_of_nat (nat i))"
proof -
  have "length (digits_of_nat (nat i)) \<le> int_max_str_digits"
    using digits_within_limit [OF nat_below_limit [OF assms]] .
  then show ?thesis using assms(1) by (simp add: py_str_def Let_def)
qed

lemma py_str_too_long: "10 ^ int_max_str_digits \<le> i \<Longrightarrow> py_str i = Inl ValueError"
proof -
  assume a: "10 ^ int_max_str_digits \<le> i"
  have "(0 :: int) \<le> 10 ^ int_max_str_digits" by (rule zero_le_power) simp
  then have i: "0 \<le> i" using a by (rule order_trans)
  have "int (10 ^ int_max_str_digits) \<le> i" using a by simp
  then have "10 ^ int_max_str_digits \<le> nat i" using i by (simp only: le_nat_iff)
  then have "int_max_str_digits < length (digits_of_nat (nat i))" by (rule digits_length_gt)
  then show ?thesis using i by (simp add: py_str_def Let_def)
qed

lemma isdecimal_props:
  "isdecimal c \<Longrightarrow> isdigit c \<and> \<not> isspace c \<and> c \<noteq> CHR ''-'' \<and> c \<noteq> CHR '',''"
  by (auto simp: isdecimal_def isdigit_def isspace_def Let_def)

lemma dropWhile_none: "(\<forall>c \<in> set s. \<not> P c) \<Longrightarrow> dropWhile P s = s"
  by (cases s) auto

lemma clean_endpoint_decimal: "list_all isdecimal s \<Longrightarrow> clean_endpoint s = s"
proof -
  assume a: "list_all isdecimal s"
  then have ns: "\<forall>c \<in> set s. \<not> isspace c" and d: "\<forall>c \<in> set s. isdigit c"
    using isdecimal_props by (auto simp: list_all_iff)
  have "strip s = s" using ns by (simp add: strip_def dropWhile_none)
  then show ?thesis using d by (simp add: clean_endpoint_def)
qed

lemma decimal_no_sep:
  "list_all isdecimal s \<Longrightarrow> CHR ''-'' \<notin> set s \<and> CHR '','' \<notin> set s"
  using isdecimal_props by (auto simp: list_all_iff)

subsection \<open>Formatting and parsing one range\<close>

lemma py_int_nonneg: "py_int s = Inr n \<Longrightarrow> 0 \<le> n"
proof -
  have "list_all isdecimal t \<Longrightarrow> 0 \<le> decimal_value t" for t
  proof (induction t rule: rev_induct)
    case Nil
    show ?case by (simp add: decimal_value_def)
  next
    case (snoc c t)
    then have "0 \<le> decimal_value t" and "48 \<le> (of_char c :: nat)"
      by (simp_all add: isdecimal_def Let_def)
    then show ?case by (simp add: decimal_value_snoc)
  qed
  moreover assume "py_int s = Inr n"
  ultimately show ?thesis by (auto simp: py_int_def split: if_splits)
qed

lemma parse_token_bounds:
  assumes "parse_token t = Inr r"
  shows "0 \<le> fst r \<and> fst r \<le> snd r"
proof -
  obtain e0 es where ends: "map clean_endpoint (split_on CHR ''-'' t) = e0 # es"
    using split_on_nonempty [of "CHR ''-''" t]
    by (cases "map clean_endpoint (split_on CHR ''-'' t)") auto
  from assms ends obtain start where s: "py_int e0 = Inr start"
    by (auto simp: parse_token_def split: sum.splits)
  have s0: "0 \<le> start" using py_int_nonneg [OF s] .
  show ?thesis
  proof (cases es)
    case Nil
    then show ?thesis using assms ends s s0 by (auto simp: parse_token_def)
  next
    case (Cons e1 es')
    from assms ends s Cons obtain stop where p: "py_int e1 = Inr stop"
      by (auto simp: parse_token_def split: sum.splits)
    have "0 \<le> stop" using py_int_nonneg [OF p] .
    then show ?thesis using assms ends s s0 Cons p
      by (auto simp: parse_token_def split: if_splits)
  qed
qed

lemma parse_token_single:
  assumes "CHR ''-'' \<notin> set t" and "clean_endpoint t \<noteq> []"
    and "list_all isdecimal (clean_endpoint t)"
    and "length (clean_endpoint t) \<le> int_max_str_digits"
  shows "parse_token t = Inr (decimal_value (clean_endpoint t), decimal_value (clean_endpoint t))"
  using assms by (simp add: parse_token_def split_on_no_sep py_int_def)

lemma parse_token_range_text:
  assumes "0 \<le> a" and "a \<le> b" and "b < 10 ^ int_max_str_digits"
  shows "parse_token (range_text (a, b)) = Inr (a, b)"
proof -
  have b0: "0 \<le> b" and al: "a < 10 ^ int_max_str_digits" using assms by simp_all
  note pa = py_int_digits [OF nat_below_limit [OF assms(1) al]]
  note pb = py_int_digits [OF nat_below_limit [OF b0 assms(3)]]
  have na: "CHR ''-'' \<notin> set (digits_of_nat (nat a))"
    and nb: "CHR ''-'' \<notin> set (digits_of_nat (nat b))"
    using decimal_no_sep [OF digits_of_nat_decimal] by simp_all
  show ?thesis
  proof (cases "a = b")
    case True
    then show ?thesis using na assms(1) pa
      by (simp add: range_text_def parse_token_def split_on_no_sep
          clean_endpoint_decimal digits_of_nat_decimal)
  next
    case False
    have "split_on CHR ''-'' (digits_of_nat (nat a) @ CHR ''-'' # digits_of_nat (nat b))
          = [digits_of_nat (nat a), digits_of_nat (nat b)]"
      by (simp only: split_on_append split_on_no_sep [OF na] split_on_no_sep [OF nb]) simp
    then show ?thesis using False assms b0 pa pb
      by (simp add: range_text_def parse_token_def
          clean_endpoint_decimal digits_of_nat_decimal)
  qed
qed

lemma range_text_no_comma: "CHR '','' \<notin> set (range_text r)"
  using decimal_no_sep [OF digits_of_nat_decimal]
  by (simp add: range_text_def)

lemma range_string_text:
  assumes "0 \<le> fst r" and "fst r \<le> snd r" and "snd r < 10 ^ int_max_str_digits"
  shows "range_string r = Inr (range_text r)"
proof -
  have s0: "0 \<le> snd r" and fl: "fst r < 10 ^ int_max_str_digits" using assms by simp_all
  show ?thesis
    using py_str_nonneg [OF assms(1) fl] py_str_nonneg [OF s0 assms(3)]
    by (simp add: range_string_def range_text_def)
qed

subsection \<open>Formatting a list\<close>

lemma to_string_loop_False:
  "list_all (\<lambda>r. 0 \<le> fst r \<and> fst r \<le> snd r \<and> snd r < 10 ^ int_max_str_digits) rs \<Longrightarrow>
   to_string_loop rs False acc = Inr (acc @ concat (map (\<lambda>r. CHR '','' # range_text r) rs))"
  by (induction rs arbitrary: acc) (simp_all add: range_string_text)

lemma identifier_ranges_to_string_Cons:
  "list_all (\<lambda>r. 0 \<le> fst r \<and> fst r \<le> snd r \<and> snd r < 10 ^ int_max_str_digits) (r # rs) \<Longrightarrow>
   identifier_ranges_to_string (r # rs) =
     Inr (range_text r @ concat (map (\<lambda>r. CHR '','' # range_text r) rs))"
  by (simp add: identifier_ranges_to_string_def to_string_loop_False range_string_text)

lemma raw_ranges_joined:
  "list_all (\<lambda>r. 0 \<le> fst r \<and> fst r \<le> snd r \<and> snd r < 10 ^ int_max_str_digits) (r # rs) \<Longrightarrow>
   raw_ranges (range_text r @ concat (map (\<lambda>r. CHR '','' # range_text r) rs)) = r # rs"
proof (induction rs arbitrary: r)
  case Nil
  then show ?case
    using raw_ranges_token [OF range_text_no_comma [of r]]
      parse_token_range_text [of "fst r" "snd r"] by simp
next
  case (Cons q rs)
  have r: "0 \<le> fst r" "fst r \<le> snd r" "snd r < 10 ^ int_max_str_digits"
    using Cons.prems by simp_all
  have rest: "list_all (\<lambda>r. 0 \<le> fst r \<and> fst r \<le> snd r \<and> snd r < 10 ^ int_max_str_digits) (q # rs)"
    using Cons.prems by simp
  have "raw_ranges (range_text r @ CHR '','' #
          (range_text q @ concat (map (\<lambda>r. CHR '','' # range_text r) rs)))
        = raw_ranges (range_text r) @ (q # rs)"
    by (simp only: raw_ranges_append Cons.IH [OF rest])
  moreover have "raw_ranges (range_text r) = [r]"
    using raw_ranges_token [OF range_text_no_comma [of r]]
      parse_token_range_text [OF r] by simp
  ultimately show ?case by simp
qed

lemma raw_ranges_empty: "raw_ranges [] = []"
  by (simp add: raw_ranges_def parse_token_def clean_endpoint_def strip_def py_int_def)

lemma small_below_limit: "i < 100 \<Longrightarrow> (i :: int) < 10 ^ int_max_str_digits"
proof -
  assume "i < 100"
  moreover have "(10 :: int) ^ 2 \<le> 10 ^ int_max_str_digits"
    by (rule power_increasing) (simp_all add: int_max_str_digits_def)
  ultimately show ?thesis by simp
qed

section \<open>Properties of parsing and formatting\<close>

text \<open>
  C5, as stated: for every range list \<open>r\<close> in canonical form with non-negative starts,
  parsing the formatted string gives back \<open>r\<close>. This fails for an identifier of more than
  \<open>int_max_str_digits\<close> (4300) digits: \<open>str\<close> raises \<open>ValueError\<close>, which
  \<open>identifier_ranges_to_string\<close> does not catch, so there is no formatted string to parse.
  The least such identifier is \<open>10 ^ 4300\<close>.
\<close>

theorem round_trip_digit_limit_counterexample:
  "normalized [(10 ^ int_max_str_digits, 10 ^ int_max_str_digits)] \<and>
   (0 :: int) \<le> 10 ^ int_max_str_digits \<and>
   int_max_str_digits = 4300 \<and>
   identifier_ranges_to_string [(10 ^ int_max_str_digits, 10 ^ int_max_str_digits)]
     = Inl ValueError"
proof -
  have "py_str (10 ^ int_max_str_digits) = Inl ValueError"
    by (rule py_str_too_long) (rule order_refl)
  then have "identifier_ranges_to_string [(10 ^ int_max_str_digits, 10 ^ int_max_str_digits)]
     = Inl ValueError"
    by (simp add: identifier_ranges_to_string_def range_string_def)
  moreover have "(0 :: int) \<le> 10 ^ int_max_str_digits" by (rule zero_le_power) simp
  moreover have "int_max_str_digits = 4300" by (rule int_max_str_digits_def)
  ultimately show ?thesis by simp
qed

text \<open>
  C5, amended: for every range list \<open>r\<close> in canonical form (ascending, non-overlapping,
  non-adjacent, every range with \<open>start \<le> stop\<close>) whose starts are non-negative and whose
  identifiers have at most 4300 decimal digits (every stop is below \<open>10 ^ 4300\<close>),
  formatting returns a string, and parsing that string gives back exactly \<open>r\<close>.
\<close>

theorem round_trip_parse_format:
  "normalized r \<Longrightarrow> list_all (\<lambda>p. 0 \<le> fst p) r \<Longrightarrow>
   list_all (\<lambda>p. snd p < 10 ^ int_max_str_digits) r \<Longrightarrow>
   \<exists>s. identifier_ranges_to_string r = Inr s \<and> identifier_ranges_from_string s = r"
proof -
  assume n: "normalized r" and z: "list_all (\<lambda>p. 0 \<le> fst p) r"
    and l: "list_all (\<lambda>p. snd p < 10 ^ int_max_str_digits) r"
  have v: "list_all (\<lambda>p. 0 \<le> fst p \<and> fst p \<le> snd p \<and> snd p < 10 ^ int_max_str_digits) r"
    using normalized_valid [OF n] z l by (simp add: list_all_iff)
  have "\<exists>s. identifier_ranges_to_string r = Inr s \<and> raw_ranges s = r"
  proof (cases r)
    case Nil
    then show ?thesis
      by (simp add: identifier_ranges_to_string_def raw_ranges_empty)
  next
    case (Cons p ps)
    then show ?thesis
      using raw_ranges_joined [of p ps] identifier_ranges_to_string_Cons [of p ps] v
      by simp
  qed
  then show ?thesis
    using fix_normalized_id [OF n] by (auto simp: identifier_ranges_from_string_def)
qed

theorem round_trip_parse_format_witness:
  "normalized [(1, 30), (55, 55), (66, 70)] \<and>
   list_all (\<lambda>p. 0 \<le> fst p) [(1 :: int, 30 :: int), (55, 55), (66, 70)] \<and>
   list_all (\<lambda>p. snd p < 10 ^ int_max_str_digits) [(1 :: int, 30 :: int), (55, 55), (66, 70)] \<and>
   identifier_ranges_to_string [(1, 30), (55, 55), (66, 70)] = Inr ''1-30,55,66-70'' \<and>
   identifier_ranges_from_string ''1-30,55,66-70'' = [(1, 30), (55, 55), (66, 70)]"
proof -
  have n: "normalized [(1, 30), (55, 55), (66, 70)]" by simp
  have z: "list_all (\<lambda>p. 0 \<le> fst p) [(1 :: int, 30 :: int), (55, 55), (66, 70)]" by simp
  have l: "list_all (\<lambda>p. snd p < 10 ^ int_max_str_digits) [(1 :: int, 30 :: int), (55, 55), (66, 70)]"
    by (simp add: small_below_limit)
  have s: "identifier_ranges_to_string [(1, 30), (55, 55), (66, 70)] = Inr ''1-30,55,66-70''"
    by code_simp
  from round_trip_parse_format [OF n z l] obtain t where
    t: "identifier_ranges_to_string [(1, 30), (55, 55), (66, 70)] = Inr t"
    and p: "identifier_ranges_from_string t = [(1, 30), (55, 55), (66, 70)]"
    by blast
  have "t = ''1-30,55,66-70''" using t s by simp
  then have "identifier_ranges_from_string ''1-30,55,66-70'' = [(1, 30), (55, 55), (66, 70)]"
    using p by simp
  then show ?thesis by (intro conjI n z l s)
qed

subsection \<open>What the parser returns\<close>

lemma set_map_filter: "set (List.map_filter f xs) = {y. \<exists>x \<in> set xs. f x = Some y}"
  by (induction xs) (auto simp: List.map_filter_simps split: option.splits)

lemma token_range_Some: "token_range t = Some r \<longleftrightarrow> parse_token t = Inr r"
  by (simp add: token_range_def split: sum.splits)

lemma raw_ranges_set:
  "set (raw_ranges s) = {r. \<exists>t \<in> set (split_on CHR '','' s). parse_token t = Inr r}"
  by (simp add: raw_ranges_def collect_ranges_map_filter set_map_filter token_range_Some)

lemma raw_ranges_bounds: "list_all (\<lambda>r. 0 \<le> fst r \<and> fst r \<le> snd r) (raw_ranges s)"
  using parse_token_bounds by (auto simp: list_all_iff raw_ranges_set)

lemma raw_ranges_valid: "list_all (\<lambda>r. fst r \<le> snd r) (raw_ranges s)"
  using raw_ranges_bounds [of s] by (simp add: list_all_iff)

lemma covered_iff: "x \<in> covered rs \<longleftrightarrow> (\<exists>r \<in> set rs. fst r \<le> x \<and> x \<le> snd r)"
  by (auto simp: covered_def)

lemma from_string_normalized: "normalized (identifier_ranges_from_string s)"
  using fix_normalized [OF raw_ranges_valid] by (simp add: identifier_ranges_from_string_def)

lemma from_string_covered: "covered (identifier_ranges_from_string s) = covered (raw_ranges s)"
  using fix_covered [OF raw_ranges_valid] by (simp add: identifier_ranges_from_string_def)

lemma from_string_bounds:
  "list_all (\<lambda>r. 0 \<le> fst r \<and> fst r \<le> snd r) (identifier_ranges_from_string s)"
proof -
  have v: "list_all (\<lambda>r. fst r \<le> snd r) (identifier_ranges_from_string s)"
    using normalized_valid [OF from_string_normalized] .
  have "0 \<le> fst r" if "r \<in> set (identifier_ranges_from_string s)" for r
  proof -
    have "fst r \<le> snd r" using v that by (simp add: list_all_iff)
    then have "fst r \<in> covered (identifier_ranges_from_string s)"
      using that covered_iff by blast
    then have "fst r \<in> covered (raw_ranges s)" by (simp only: from_string_covered)
    then obtain q where "q \<in> set (raw_ranges s)" and "fst q \<le> fst r"
      using covered_iff by blast
    then show ?thesis using raw_ranges_bounds [of s] by (auto simp: list_all_iff)
  qed
  then show ?thesis using v by (simp add: list_all_iff)
qed

lemma strip_spaces: "list_all isspace ws \<Longrightarrow> strip ws = []"
proof -
  assume "list_all isspace ws"
  then have d: "dropWhile isspace ws = []" by (simp add: list_all_iff)
  show ?thesis unfolding strip_def d by simp
qed

lemma parse_token_leading_minus:
  assumes "list_all isspace ws"
  shows "parse_token (ws @ CHR ''-'' # rest) = Inl ValueError"
proof -
  have "\<not> isspace CHR ''-''" by (simp add: isspace_def)
  then have "CHR ''-'' \<notin> set ws" using assms by (auto simp: list_all_iff)
  then have "split_on CHR ''-'' (ws @ CHR ''-'' # rest) = ws # split_on CHR ''-'' rest"
    by (simp add: split_on_append split_on_no_sep)
  then show ?thesis
    by (simp add: parse_token_def clean_endpoint_def strip_spaces [OF assms] py_int_def)
qed

lemma raw_ranges_drop_failed:
  assumes "CHR '','' \<notin> set t" and "parse_token t = Inl e"
  shows "raw_ranges t = []"
    and "raw_ranges (s1 @ CHR '','' # t @ CHR '','' # s2) = raw_ranges (s1 @ CHR '','' # s2)"
    and "raw_ranges (t @ CHR '','' # s2) = raw_ranges s2"
    and "raw_ranges (s1 @ CHR '','' # t) = raw_ranges s1"
proof -
  show e: "raw_ranges t = []" using raw_ranges_token [OF assms(1)] assms(2) by simp
  show "raw_ranges (t @ CHR '','' # s2) = raw_ranges s2"
    by (simp only: raw_ranges_append e) simp
  then show "raw_ranges (s1 @ CHR '','' # t @ CHR '','' # s2) = raw_ranges (s1 @ CHR '','' # s2)"
    by (simp only: raw_ranges_append)
  show "raw_ranges (s1 @ CHR '','' # t) = raw_ranges s1"
    by (simp only: raw_ranges_append e) simp
qed

lemma split_on_tokens_no_sep: "t \<in> set (split_on sep s) \<Longrightarrow> sep \<notin> set t"
proof (induction s arbitrary: t)
  case Nil
  then show ?case by simp
next
  case (Cons c s)
  obtain u us where h: "split_on sep s = u # us"
    using split_on_nonempty [of sep s] by (cases "split_on sep s") auto
  show ?case using Cons h by (auto split: if_splits)
qed







text \<open>
  C10: for every input string, every range of the list parsing returns has
  \<open>0 \<le> start \<le> stop\<close>, and the list is in canonical form (ascending, non-overlapping,
  non-adjacent); a token beginning with \<open>-\<close> has an empty first endpoint, raises
  \<open>ValueError\<close> and is dropped, so no endpoint is ever negative.
\<close>

theorem parse_result_invariant:
  "list_all (\<lambda>r. 0 \<le> fst r \<and> fst r \<le> snd r) (identifier_ranges_from_string s) \<and>
   normalized (identifier_ranges_from_string s) \<and>
   parse_token (CHR ''-'' # rest) = Inl ValueError \<and>
   (CHR '','' \<notin> set rest \<longrightarrow>
      identifier_ranges_from_string (s1 @ '','' @ (CHR ''-'' # rest) @ '','' @ s2)
        = identifier_ranges_from_string (s1 @ '','' @ s2))"
proof (intro conjI impI)
  show "list_all (\<lambda>r. 0 \<le> fst r \<and> fst r \<le> snd r) (identifier_ranges_from_string s)"
    by (rule from_string_bounds)
  show "normalized (identifier_ranges_from_string s)" by (rule from_string_normalized)
  show f: "parse_token (CHR ''-'' # rest) = Inl ValueError"
    using parse_token_leading_minus [of "[]" rest] by simp
  assume "CHR '','' \<notin> set rest"
  then have c: "CHR '','' \<notin> set (CHR ''-'' # rest)" by simp
  show "identifier_ranges_from_string (s1 @ '','' @ (CHR ''-'' # rest) @ '','' @ s2)
        = identifier_ranges_from_string (s1 @ '','' @ s2)"
    using raw_ranges_drop_failed(2) [OF c f, of s1 s2]
    by (simp add: identifier_ranges_from_string_def)
qed

theorem parse_result_invariant_witness:
  "CHR '','' \<notin> set ''5'' \<and>
   list_all (\<lambda>r. 0 \<le> fst r \<and> fst r \<le> snd r) (identifier_ranges_from_string ''9-7,-5,8'') \<and>
   normalized (identifier_ranges_from_string ''9-7,-5,8'') \<and>
   parse_token ''-5'' = Inl ValueError \<and>
   identifier_ranges_from_string ''9-7,-5,8'' = identifier_ranges_from_string ''9-7,8'' \<and>
   identifier_ranges_from_string ''9-7,-5,8'' = [(7, 9)]"
proof -
  have c: "CHR '','' \<notin> set ''5''" by simp
  have r: "identifier_ranges_from_string ''9-7,-5,8'' = [(7, 9)]" by code_simp
  note t = parse_result_invariant [of "''9-7,-5,8''" "''5''" "''9-7''" "''8''"]
  from t have a: "list_all (\<lambda>r. 0 \<le> fst r \<and> fst r \<le> snd r)
                    (identifier_ranges_from_string ''9-7,-5,8'')" by (rule conjunct1)
  from t have b: "normalized (identifier_ranges_from_string ''9-7,-5,8'')" by blast
  from t have d: "parse_token ''-5'' = Inl ValueError" by blast
  from t c have e: "identifier_ranges_from_string ''9-7,-5,8''
                    = identifier_ranges_from_string ''9-7,8''" by simp
  show ?thesis by (intro conjI c a b d e r)
qed

lemma long_token_dropped:
  assumes "int_max_str_digits < n" and "isdecimal c"
  shows "CHR ''-'' \<notin> set (replicate n c)"
    and "clean_endpoint (replicate n c) = replicate n c"
    and "list_all isdecimal (replicate n c)"
    and "parse_token (replicate n c) = Inl ValueError"
    and "identifier_ranges_from_string (replicate n c) = []"
proof -
  show d: "list_all isdecimal (replicate n c)" using assms(2) by (simp add: list_all_iff)
  show m: "CHR ''-'' \<notin> set (replicate n c)" using decimal_no_sep [OF d] by simp
  show e: "clean_endpoint (replicate n c) = replicate n c" using d by (rule clean_endpoint_decimal)
  have "py_int (replicate n c) = Inl ValueError" using assms(1) by (simp add: py_int_def)
  then show f: "parse_token (replicate n c) = Inl ValueError"
    using m by (simp add: parse_token_def split_on_no_sep e)
  have "CHR '','' \<notin> set (replicate n c)" using decimal_no_sep [OF d] by simp
  then show "identifier_ranges_from_string (replicate n c) = []"
    using raw_ranges_drop_failed(1) [OF _ f]
    by (simp add: identifier_ranges_from_string_def identifier_ranges_fix_scan)
qed

text \<open>
  C4, as stated: every token that yields only one numeric endpoint \<open>n\<close> after cleanup
  becomes the range \<open>[n, n]\<close> in the parse result. This fails in three ways. Where
  normalization merges the range into another: in \<open>1-5,3\<close> the token \<open>3\<close> is parsed to
  \<open>[3, 3]\<close>, and the parse result is \<open>[[1, 5]]\<close>. Where the token has a second endpoint
  that is not numeric: \<open>5-\<close> has the endpoints \<open>5\<close> and the empty string, \<open>int\<close> raises on
  the second and the token is dropped. Where the endpoint has more than 4300 digits:
  \<open>int\<close> raises and the token of 4301 sevens is dropped.
\<close>

theorem single_token_merged_counterexample:
  "''3'' \<in> set (split_on CHR '','' ''1-5,3'') \<and>
   CHR ''-'' \<notin> set ''3'' \<and>
   clean_endpoint ''3'' = ''3'' \<and>
   parse_token ''3'' = Inr (3, 3) \<and>
   identifier_ranges_from_string ''1-5,3'' = [(1, 5)] \<and>
   (3, 3) \<notin> set (identifier_ranges_from_string ''1-5,3'') \<and>
   map clean_endpoint (split_on CHR ''-'' ''5-'') = [''5'', []] \<and>
   parse_token ''5-'' = Inl ValueError \<and>
   identifier_ranges_from_string ''5-'' = [] \<and>
   CHR ''-'' \<notin> set (replicate 4301 CHR ''7'') \<and>
   clean_endpoint (replicate 4301 CHR ''7'') = replicate 4301 CHR ''7'' \<and>
   list_all isdecimal (replicate 4301 CHR ''7'') \<and>
   parse_token (replicate 4301 CHR ''7'') = Inl ValueError \<and>
   identifier_ranges_from_string (replicate 4301 CHR ''7'') = []"
proof -
  have 1: "split_on CHR '','' ''1-5,3'' = [''1-5'', ''3'']" by code_simp
  have 2: "clean_endpoint ''3'' = ''3''" by code_simp
  have 3: "parse_token ''3'' = Inr (3, 3)" by code_simp
  have 4: "identifier_ranges_from_string ''1-5,3'' = [(1, 5)]" by code_simp
  have 5: "map clean_endpoint (split_on CHR ''-'' ''5-'') = [''5'', []]" by code_simp
  have 6: "parse_token ''5-'' = Inl ValueError" by code_simp
  have 7: "identifier_ranges_from_string ''5-'' = []" by code_simp
  have a: "''3'' \<in> set (split_on CHR '','' ''1-5,3'')" by (simp add: 1)
  have b: "CHR ''-'' \<notin> set ''3''" by simp
  have c: "(3, 3) \<notin> set (identifier_ranges_from_string ''1-5,3'')" by (simp add: 4)
  have n: "int_max_str_digits < 4301" by (simp add: int_max_str_digits_def)
  have d: "isdecimal CHR ''7''" by (simp add: isdecimal_def)
  note l = long_token_dropped [OF n d]
  show ?thesis by (intro conjI a b 2 3 4 c 5 6 7 l)
qed

text \<open>
  C4, amended: every token with a single endpoint (no \<open>-\<close> in it) that after cleanup is a
  decimal number \<open>n\<close> of at most 4300 digits is parsed to the range \<open>[n, n]\<close>, which is
  appended to the collected list; the parse result, after normalization, covers \<open>n\<close>, and
  it is exactly \<open>[[n, n]]\<close> when the token is the whole input.
\<close>

theorem single_endpoint_token_range:
  assumes "t \<in> set (split_on CHR '','' s)"
    and "CHR ''-'' \<notin> set t"
    and "clean_endpoint t \<noteq> []" and "list_all isdecimal (clean_endpoint t)"
    and "length (clean_endpoint t) \<le> int_max_str_digits"
  shows "parse_token t = Inr (decimal_value (clean_endpoint t), decimal_value (clean_endpoint t)) \<and>
         (decimal_value (clean_endpoint t), decimal_value (clean_endpoint t)) \<in> set (raw_ranges s) \<and>
         decimal_value (clean_endpoint t) \<in> covered (identifier_ranges_from_string s) \<and>
         identifier_ranges_from_string t
           = [(decimal_value (clean_endpoint t), decimal_value (clean_endpoint t))]"
proof -
  let ?n = "decimal_value (clean_endpoint t)"
  have p: "parse_token t = Inr (?n, ?n)"
    using parse_token_single [OF assms(2,3,4,5)] .
  have m: "(?n, ?n) \<in> set (raw_ranges s)"
    using assms(1) p by (auto simp: raw_ranges_set)
  have c: "?n \<in> covered (identifier_ranges_from_string s)"
    unfolding from_string_covered covered_iff using m by force
  have "CHR '','' \<notin> set t" using split_on_tokens_no_sep [OF assms(1)] .
  then have "raw_ranges t = [(?n, ?n)]" using raw_ranges_token [of t] p by simp
  then have "identifier_ranges_from_string t = [(?n, ?n)]"
    by (simp add: identifier_ranges_from_string_def identifier_ranges_fix_scan)
  then show ?thesis using p m c by simp
qed

theorem single_endpoint_token_range_witness:
  "'' 42abc'' \<in> set (split_on CHR '','' ''7, 42abc,9'') \<and>
   CHR ''-'' \<notin> set '' 42abc'' \<and>
   clean_endpoint '' 42abc'' = ''42'' \<and>
   list_all isdecimal ''42'' \<and>
   length ''42'' \<le> int_max_str_digits \<and>
   decimal_value ''42'' = 42 \<and>
   parse_token '' 42abc'' = Inr (42, 42) \<and>
   (42, 42) \<in> set (raw_ranges ''7, 42abc,9'') \<and>
   42 \<in> covered (identifier_ranges_from_string ''7, 42abc,9'') \<and>
   identifier_ranges_from_string '' 42abc'' = [(42, 42)]"
proof -
  have 1: "split_on CHR '','' ''7, 42abc,9'' = [''7'', '' 42abc'', ''9'']" by code_simp
  have 2: "clean_endpoint '' 42abc'' = ''42''" by code_simp
  have 3: "list_all isdecimal ''42''" by code_simp
  have 4: "decimal_value ''42'' = 42" by code_simp
  have 5: "length ''42'' \<le> int_max_str_digits" by (simp add: int_max_str_digits_def)
  have t: "'' 42abc'' \<in> set (split_on CHR '','' ''7, 42abc,9'')" by (simp add: 1)
  have d: "CHR ''-'' \<notin> set '' 42abc''" by simp
  have n: "clean_endpoint '' 42abc'' \<noteq> []" by (simp add: 2)
  have l: "list_all isdecimal (clean_endpoint '' 42abc'')" by (simp only: 2 3)
  have k: "length (clean_endpoint '' 42abc'') \<le> int_max_str_digits" by (simp only: 2 5)
  show ?thesis using single_endpoint_token_range [OF t d n l k] t d 3 5 by (simp only: 2 4) simp
qed

section \<open>The remap loop and its invariant\<close>

lemma remap_invI:
  assumes "distinct (available_identifiers s)"
    and "\<And>a. a \<in> set (available_identifiers s) \<Longrightarrow> a \<notin> used \<and> a \<le> hi"
    and "\<And>u. u \<in> used \<Longrightarrow> u \<le> hi"
    and "hi \<le> max_identifier s"
    and "\<And>k v. identifier_map s k = Some v \<Longrightarrow>
          v \<notin> used \<and> v \<notin> set (available_identifiers s) \<and> v \<le> max_identifier s \<and>
          (k \<notin> nodes \<longrightarrow> hi < v)"
    and "\<And>k k' v. identifier_map s k = Some v \<Longrightarrow> identifier_map s k' = Some v \<Longrightarrow> k = k'"
  shows "remap_inv nodes used hi s"
  unfolding remap_inv_def using assms by blast

lemma remap_invD:
  assumes "remap_inv nodes used hi s"
  shows "distinct (available_identifiers s)"
    and "\<And>a. a \<in> set (available_identifiers s) \<Longrightarrow> a \<notin> used \<and> a \<le> hi"
    and "\<And>u. u \<in> used \<Longrightarrow> u \<le> hi"
    and "hi \<le> max_identifier s"
    and "\<And>k v. identifier_map s k = Some v \<Longrightarrow>
          v \<notin> used \<and> v \<notin> set (available_identifiers s) \<and> v \<le> max_identifier s \<and>
          (k \<notin> nodes \<longrightarrow> hi < v)"
    and "\<And>k k' v. identifier_map s k = Some v \<Longrightarrow> identifier_map s k' = Some v \<Longrightarrow> k = k'"
  using assms unfolding remap_inv_def by blast+

lemma remap_step_inv:
  assumes "remap_inv nodes used hi s"
  shows "remap_inv nodes used hi (remap_step nodes s dp)"
proof (cases "dp \<in> nodes \<and> length (available_identifiers s) \<noteq> 0")
  case True
  then obtain a as where av: "available_identifiers s = a # as"
    by (cases "available_identifiers s") auto
  let ?s = "s\<lparr>available_identifiers := as, identifier_map := (identifier_map s)(dp \<mapsto> a)\<rparr>"
  have step: "remap_step nodes s dp = ?s"
    using True av by (simp add: remap_step_def)
  note d = remap_invD [OF assms]
  have da: "distinct (a # as)" using d(1) av by simp
  have a: "a \<notin> used \<and> a \<le> hi" using d(2) [of a] av by simp
  have old: "v \<notin> used \<and> v \<noteq> a \<and> v \<notin> set as \<and> v \<le> max_identifier s \<and> (k \<notin> nodes \<longrightarrow> hi < v)"
    if "identifier_map s k = Some v" for k v
    using d(5) [OF that] av by simp
  have "remap_inv nodes used hi ?s"
  proof (rule remap_invI)
    show "distinct (available_identifiers ?s)" using da by simp
    show "b \<in> set (available_identifiers ?s) \<Longrightarrow> b \<notin> used \<and> b \<le> hi" for b
      using d(2) [of b] av by simp
    show "u \<in> used \<Longrightarrow> u \<le> hi" for u using d(3) .
    show "hi \<le> max_identifier ?s" using d(4) by simp
    show "v \<notin> used \<and> v \<notin> set (available_identifiers ?s) \<and> v \<le> max_identifier ?s \<and>
          (k \<notin> nodes \<longrightarrow> hi < v)" if "identifier_map ?s k = Some v" for k v
    proof (cases "k = dp")
      case True
      then have "v = a" using that by simp
      then show ?thesis using a da d(4) True \<open>dp \<in> nodes \<and> _\<close> by simp
    next
      case False
      then have "identifier_map s k = Some v" using that by simp
      then show ?thesis using old by simp
    qed
    show "k = k'" if "identifier_map ?s k = Some v" and "identifier_map ?s k' = Some v" for k k' v
    proof (cases "k = dp")
      case kd: True
      then have va: "v = a" using that(1) by simp
      show ?thesis
      proof (cases "k' = dp")
        case True
        then show ?thesis using kd by simp
      next
        case False
        then have "identifier_map s k' = Some a" using that(2) va by simp
        then show ?thesis using old by blast
      qed
    next
      case kd: False
      then have mk: "identifier_map s k = Some v" using that(1) by simp
      show ?thesis
      proof (cases "k' = dp")
        case True
        then have "v = a" using that(2) by simp
        then show ?thesis using old [OF mk] by simp
      next
        case False
        then have "identifier_map s k' = Some v" using that(2) by simp
        then show ?thesis using d(6) mk by blast
      qed
    qed
  qed
  then show ?thesis by (simp only: step)
next
  case False
  let ?n = "max_identifier s + 1"
  let ?s = "s\<lparr>max_identifier := ?n, identifier_map := (identifier_map s)(dp \<mapsto> ?n)\<rparr>"
  have step: "remap_step nodes s dp = ?s"
    using False by (auto simp: remap_step_def)
  note d = remap_invD [OF assms]
  have n: "?n \<notin> used \<and> ?n \<notin> set (available_identifiers s) \<and> hi < ?n"
    using d(2) [of ?n] d(3) [of ?n] d(4) by auto
  have old: "v \<notin> used \<and> v \<noteq> ?n \<and> v \<notin> set (available_identifiers s) \<and> v \<le> ?n \<and>
             (k \<notin> nodes \<longrightarrow> hi < v)"
    if "identifier_map s k = Some v" for k v
    using d(5) [OF that] by simp
  have "remap_inv nodes used hi ?s"
  proof (rule remap_invI)
    show "distinct (available_identifiers ?s)" using d(1) by simp
    show "b \<in> set (available_identifiers ?s) \<Longrightarrow> b \<notin> used \<and> b \<le> hi" for b
      using d(2) [of b] by simp
    show "u \<in> used \<Longrightarrow> u \<le> hi" for u using d(3) .
    show "hi \<le> max_identifier ?s" using d(4) by simp
    show "v \<notin> used \<and> v \<notin> set (available_identifiers ?s) \<and> v \<le> max_identifier ?s \<and>
          (k \<notin> nodes \<longrightarrow> hi < v)" if "identifier_map ?s k = Some v" for k v
    proof (cases "k = dp")
      case True
      then have "v = ?n" using that by simp
      then show ?thesis using n by simp
    next
      case False
      then have "identifier_map s k = Some v" using that by simp
      then show ?thesis using old by simp
    qed
    show "k = k'" if "identifier_map ?s k = Some v" and "identifier_map ?s k' = Some v" for k k' v
    proof (cases "k = dp")
      case kd: True
      then have va: "v = ?n" using that(1) by simp
      show ?thesis
      proof (cases "k' = dp")
        case True
        then show ?thesis using kd by simp
      next
        case False
        then have "identifier_map s k' = Some ?n" using that(2) va by simp
        then show ?thesis using old by blast
      qed
    next
      case kd: False
      then have mk: "identifier_map s k = Some v" using that(1) by simp
      show ?thesis
      proof (cases "k' = dp")
        case True
        then have "v = ?n" using that(2) by simp
        then show ?thesis using old [OF mk] by simp
      next
        case False
        then have "identifier_map s k' = Some v" using that(2) by simp
        then show ?thesis using d(6) mk by blast
      qed
    qed
  qed
  then show ?thesis by (simp only: step)
qed

lemma remap_step_dom:
  "dom (identifier_map (remap_step nodes s dp)) = insert dp (dom (identifier_map s))"
  by (simp add: remap_step_def)

lemma remap_loop_inv:
  "remap_inv nodes used hi s \<Longrightarrow> remap_inv nodes used hi (remap_loop nodes cs s)"
  by (induction cs arbitrary: s) (simp_all add: remap_step_inv)

lemma remap_loop_dom:
  "dom (identifier_map (remap_loop nodes cs s)) = dom (identifier_map s) \<union> set cs"
  by (induction cs arbitrary: s) (simp_all add: remap_step_dom)

lemma remap_loop_untouched:
  "c \<notin> set cs \<Longrightarrow> identifier_map (remap_loop nodes cs s) c = identifier_map s c"
  by (induction cs arbitrary: s) (auto simp: remap_step_def)

section \<open>The identifiers in use and the gaps\<close>

lemma in_use_props:
  "sorted_wrt (<) (in_use a b)" "set (in_use a b) = set a \<union> set b"
  by (auto simp: in_use_def strict_sorted_iff)

lemma find_missing_Cons2:
  "find_missing (x # y # rest) = [x + 1 .. y - 1] @ find_missing (y # rest)"
proof -
  have "filter (\<lambda>i. y - x > 1) [x + 1 .. y - 1] = [x + 1 .. y - 1]"
    by (cases "y - x > 1") simp_all
  then show ?thesis by (simp add: find_missing_def)
qed

lemma find_missing_single: "find_missing [x] = []"
  by (simp add: find_missing_def)

lemma strict_sorted_upto: "sorted_wrt (<) [i .. j :: int]"
  by (simp add: strict_sorted_iff)

lemma sorted_wrt_last: "sorted_wrt (<) (x # rest) \<Longrightarrow> (x :: int) \<le> last (x # rest)"
proof (induction rest arbitrary: x)
  case Nil
  show ?case by simp
next
  case (Cons y rest)
  have "y \<le> last (y # rest)" using Cons by simp
  moreover have "x < y" using Cons.prems by simp
  ultimately show ?case by simp
qed

lemma find_missing_props:
  "sorted_wrt (<) (x # rest) \<Longrightarrow>
     sorted_wrt (<) (find_missing (x # rest)) \<and>
     set (find_missing (x # rest)) = {i. x < i \<and> i < last (x # rest) \<and> i \<notin> set (x # rest)}"
proof (induction rest arbitrary: x)
  case Nil
  show ?case by (simp add: find_missing_single)
next
  case (Cons y rest)
  have xy: "x < y" and sy: "sorted_wrt (<) (y # rest)" and above: "\<forall>z \<in> set rest. y < z"
    using Cons.prems by auto
  have ih1: "sorted_wrt (<) (find_missing (y # rest))"
    and ih2: "set (find_missing (y # rest)) = {i. y < i \<and> i < last (y # rest) \<and> i \<notin> set (y # rest)}"
    using Cons.IH [OF sy] by simp_all
  have yl: "y \<le> last (y # rest)" using sorted_wrt_last [OF sy] .
  have s: "sorted_wrt (<) ([x + 1 .. y - 1] @ find_missing (y # rest))"
    unfolding sorted_wrt_append using ih1 ih2 strict_sorted_upto by auto
  have "set ([x + 1 .. y - 1] @ find_missing (y # rest))
        = {i. x < i \<and> i < last (x # y # rest) \<and> i \<notin> set (x # y # rest)}"
  proof (rule set_eqI)
    fix i
    show "i \<in> set ([x + 1 .. y - 1] @ find_missing (y # rest)) \<longleftrightarrow>
          i \<in> {i. x < i \<and> i < last (x # y # rest) \<and> i \<notin> set (x # y # rest)}"
      using xy yl above ih2 by (cases "i < y") auto
  qed
  then show ?case using s by (simp only: find_missing_Cons2) 
qed

lemma gap_list_props:
  assumes "sorted_wrt (<) (x # rest)"
  shows "sorted_wrt (<) (gap_list (x # rest))"
    and "set (gap_list (x # rest)) =
           {i. 1 \<le> i \<and> i < x} \<union> {i. x < i \<and> i < last (x # rest) \<and> i \<notin> set (x # rest)}"
proof -
  note fm = find_missing_props [OF assms]
  show "sorted_wrt (<) (gap_list (x # rest))"
    unfolding gap_list_def sorted_wrt_append using fm strict_sorted_upto by auto
  have "set (gap_list (x # rest)) = set [1 .. x - 1] \<union> set (find_missing (x # rest))"
    by (simp add: gap_list_def)
  moreover have "set [1 .. x - 1] = {i. 1 \<le> i \<and> i < x}" by auto
  ultimately show "set (gap_list (x # rest)) =
           {i. 1 \<le> i \<and> i < x} \<union> {i. x < i \<and> i < last (x # rest) \<and> i \<notin> set (x # rest)}"
    using fm by (simp only:)
qed

lemma remap_loop_colliding:
  "distinct cs \<Longrightarrow> i < length cs \<Longrightarrow> cs ! i \<in> nodes \<Longrightarrow>
   identifier_map (remap_loop nodes cs s) (cs ! i) =
     Some (if colliding_before nodes cs i < length (available_identifiers s)
           then available_identifiers s ! colliding_before nodes cs i
           else max_identifier s + int (i + 1 - length (available_identifiers s)))"
proof (induction cs arbitrary: s i)
  case Nil
  then show ?case by simp
next
  case (Cons d ds)
  show ?case
  proof (cases i)
    case 0
    then have dn: "d \<in> nodes" using Cons.prems(3) by simp
    have nd: "d \<notin> set ds" using Cons.prems(1) by simp
    have "identifier_map (remap_loop nodes (d # ds) s) d = identifier_map (remap_step nodes s d) d"
      using remap_loop_untouched [OF nd] by simp
    also have "\<dots> = Some (if 0 < length (available_identifiers s)
           then available_identifiers s ! 0 else max_identifier s + 1)"
      using dn by (cases "available_identifiers s") (simp_all add: remap_step_def)
    finally show ?thesis using 0 by (simp add: colliding_before_def)
  next
    case (Suc j)
    let ?s = "remap_step nodes s d"
    have dd: "distinct ds" and j: "j < length ds" and cj: "ds ! j \<in> nodes"
      using Cons.prems Suc by simp_all
    have ih: "identifier_map (remap_loop nodes ds ?s) (ds ! j) =
        Some (if colliding_before nodes ds j < length (available_identifiers ?s)
           then available_identifiers ?s ! colliding_before nodes ds j
           else max_identifier ?s + int (j + 1 - length (available_identifiers ?s)))"
      using Cons.IH [OF dd j cj] .
    have kj: "colliding_before nodes ds j \<le> j"
      unfolding colliding_before_def
      using length_filter_le [of "\<lambda>c. c \<in> nodes" "take j ds"] j by simp
    show ?thesis
    proof (cases "d \<in> nodes")
      case dn: True
      have k: "colliding_before nodes (d # ds) i = Suc (colliding_before nodes ds j)"
        using dn Suc by (simp add: colliding_before_def)
      show ?thesis
      proof (cases "available_identifiers s")
        case Nil
        then have "available_identifiers ?s = []" and "max_identifier ?s = max_identifier s + 1"
          by (simp_all add: remap_step_def)
        then show ?thesis using ih Nil Suc by simp
      next
        case (Cons a as)
        then have "available_identifiers ?s = as" and "max_identifier ?s = max_identifier s"
          using dn by (simp_all add: remap_step_def)
        then show ?thesis using ih Cons Suc k kj by (simp add: Suc_diff_le)
      qed
    next
      case dn: False
      have k: "colliding_before nodes (d # ds) i = colliding_before nodes ds j"
        using dn Suc by (simp add: colliding_before_def)
      have "available_identifiers ?s = available_identifiers s"
        and "max_identifier ?s = max_identifier s + 1"
        using dn by (simp_all add: remap_step_def)
      then show ?thesis using ih Suc k kj by (auto simp: Suc_diff_le)
    qed
  qed
qed

lemma in_use_nonempty: "a \<noteq> [] \<or> b \<noteq> [] \<Longrightarrow> in_use a b \<noteq> []"
proof -
  assume "a \<noteq> [] \<or> b \<noteq> []"
  then have "set (in_use a b) \<noteq> {}" by (auto simp: in_use_props(2))
  then show ?thesis by auto
qed

lemma compute_remap_Inr:
  "a \<noteq> [] \<or> b \<noteq> [] \<Longrightarrow>
   compute_remap a b cs = Inr (identifier_map (remap_loop (set a) cs (initial_state a b)))"
  using in_use_nonempty [of a b] by (simp add: compute_remap_def initial_state_def Let_def)

lemma sorted_wrt_le_last:
  "sorted_wrt (<) xs \<Longrightarrow> u \<in> set xs \<Longrightarrow> (u :: int) \<le> last xs"
proof (induction xs)
  case Nil
  then show ?case by simp
next
  case (Cons x xs)
  show ?case
  proof (cases "u = x")
    case True
    then show ?thesis using sorted_wrt_last [OF Cons.prems(1)] by simp
  next
    case False
    then have "u \<in> set xs" using Cons.prems(2) by simp
    then have "u \<le> last xs" and "xs \<noteq> []" using Cons by auto
    then show ?thesis by simp
  qed
qed

lemma initial_inv:
  assumes "a \<noteq> [] \<or> b \<noteq> []"
  shows "remap_inv (set a) (set a \<union> set b) (last (in_use a b)) (initial_state a b)"
proof -
  obtain x rest where xs: "in_use a b = x # rest"
    using in_use_nonempty [OF assms] by (cases "in_use a b") auto
  have st: "sorted_wrt (<) (x # rest)" using in_use_props(1) [of a b] xs by simp
  have se: "set (x # rest) = set a \<union> set b" using in_use_props(2) [of a b] xs by simp
  note g = gap_list_props [OF st]
  have lo: "x \<le> u" if "u \<in> set (x # rest)" for u using st that by auto
  have hi: "u \<le> last (x # rest)" if "u \<in> set (x # rest)" for u
    using sorted_wrt_le_last [OF st that] .
  show ?thesis
  proof (rule remap_invI)
    show "distinct (available_identifiers (initial_state a b))"
      using g(1) by (simp add: initial_state_def xs strict_sorted_iff)
    show "i \<in> set (available_identifiers (initial_state a b)) \<Longrightarrow>
          i \<notin> set a \<union> set b \<and> i \<le> last (in_use a b)" for i
    proof -
      assume "i \<in> set (available_identifiers (initial_state a b))"
      then have "i \<in> {i. 1 \<le> i \<and> i < x} \<union>
                     {i. x < i \<and> i < last (x # rest) \<and> i \<notin> set (x # rest)}"
        using g(2) by (simp only: initial_state_def xs remap_state.simps)
      then consider "i < x" | "x < i \<and> i < last (x # rest) \<and> i \<notin> set (x # rest)" by auto
      then show ?thesis
      proof cases
        case 1
        then have "i \<notin> set (x # rest)" using lo [of i] by auto
        moreover have "i \<le> last (x # rest)" using 1 hi [of x] by simp
        ultimately show ?thesis by (simp add: se [symmetric] xs)
      next
        case 2
        then show ?thesis by (simp add: se [symmetric] xs)
      qed
    qed
    show "u \<in> set a \<union> set b \<Longrightarrow> u \<le> last (in_use a b)" for u
      using hi [of u] by (simp add: se [symmetric] xs)
    show "last (in_use a b) \<le> max_identifier (initial_state a b)"
      by (simp add: initial_state_def)
    show "identifier_map (initial_state a b) k = Some v \<Longrightarrow>
          v \<notin> set a \<union> set b \<and> v \<notin> set (available_identifiers (initial_state a b)) \<and>
          v \<le> max_identifier (initial_state a b) \<and> (k \<notin> set a \<longrightarrow> last (in_use a b) < v)" for k v
      by (simp add: initial_state_def)
    show "identifier_map (initial_state a b) k = Some v \<Longrightarrow>
          identifier_map (initial_state a b) k' = Some v \<Longrightarrow> k = k'" for k k' v
      by (simp add: initial_state_def)
  qed
qed

lemma final_inv:
  assumes "a \<noteq> [] \<or> b \<noteq> []"
  shows "remap_inv (set a) (set a \<union> set b) (last (in_use a b))
           (remap_loop (set a) cs (initial_state a b))"
  using remap_loop_inv [OF initial_inv [OF assms]] .

lemma final_dom:
  "dom (identifier_map (remap_loop (set a) cs (initial_state a b))) = set cs"
  by (simp add: remap_loop_dom initial_state_def)

section \<open>Properties of the remap computation\<close>

text \<open>
  C2: for every \<open>existing_A\<close>, \<open>existing_B\<close> (not both empty, as the code guards) and
  candidate list, the remap computation returns a map defined on every candidate, whose
  final identifiers are disjoint from \<open>existing_A\<close> (and from \<open>existing_B\<close>) and pairwise
  distinct: the map is injective on the candidates.
\<close>

theorem remap_unique_and_disjoint:
  assumes "a \<noteq> [] \<or> b \<noteq> []"
  shows "\<exists>m. compute_remap a b cs = Inr m \<and> dom m = set cs \<and>
             ran m \<inter> (set a \<union> set b) = {} \<and> inj_on m (set cs)"
proof -
  let ?m = "identifier_map (remap_loop (set a) cs (initial_state a b))"
  note d = remap_invD [OF final_inv [OF assms, of cs]]
  have dm: "dom ?m = set cs" by (rule final_dom)
  have r: "ran ?m \<inter> (set a \<union> set b) = {}"
    using d(5) by (auto simp: ran_def)
  have "inj_on ?m (set cs)"
  proof (rule inj_onI)
    fix k k' assume k: "k \<in> set cs" and "k' \<in> set cs" and e: "?m k = ?m k'"
    from k dm obtain v where "?m k = Some v" by blast
    then show "k = k'" using d(6) e by simp
  qed
  then show ?thesis using compute_remap_Inr [OF assms, of cs] dm r by simp
qed

theorem remap_unique_and_disjoint_witness:
  "[1, 2, 4, 5] \<noteq> ([] :: int list) \<and>
   (\<exists>m. compute_remap [1, 2, 4, 5] [1, 2, 7] [1, 2, 7] = Inr m \<and>
        dom m = set [1, 2, 7] \<and>
        ran m \<inter> (set [1, 2, 4, 5] \<union> set [1, 2, 7]) = {} \<and>
        inj_on m (set [1, 2, 7]) \<and>
        m 1 = Some 3 \<and> m 2 = Some 6 \<and> m 7 = Some 8)"
proof -
  have h: "[1, 2, 4, 5] \<noteq> ([] :: int list) \<or> [1, 2, 7] \<noteq> ([] :: int list)" by simp
  from remap_unique_and_disjoint [OF h, of "[1, 2, 7]"] obtain m where
    m: "compute_remap [1, 2, 4, 5] [1, 2, 7] [1, 2, 7] = Inr m"
    and p: "dom m = set [1, 2, 7]" "ran m \<inter> (set [1, 2, 4, 5] \<union> set [1, 2, 7]) = {}"
      "inj_on m (set [1, 2, 7])"
    by blast
  have "(case compute_remap [1, 2, 4, 5] [1, 2, 7] [1, 2, 7] of
           Inl e \<Rightarrow> [] | Inr m \<Rightarrow> [m 1, m 2, m 7]) = [Some 3, Some 6, Some 8]"
    by code_simp
  then have v: "m 1 = Some 3 \<and> m 2 = Some 6 \<and> m 7 = Some 8" using m by simp
  show ?thesis using m p v by blast
qed

text \<open>
  C1: a candidate identifier that is not present in \<open>existing_A\<close> keeps its identifier.
  The code does not do this. The condition of line 33 singles out the colliding datapoints
  and takes a gap for them; its \<open>else\<close> branch, which serves a colliding datapoint when no
  gap is left, also serves every datapoint that does not collide, and gives it the
  incremented \<open>max_identifier\<close>. With nodes \<open>{1}\<close> and datapoints \<open>{2}\<close>, datapoint 2
  becomes 3; with nodes \<open>{5}\<close> and datapoints \<open>{2, 5}\<close>, datapoint 2 becomes 6 while the
  gaps 1, 3 and 4 remain, and datapoint 5 takes gap 1.
\<close>

theorem noncolliding_datapoint_loses_identifier:
  "(2 :: int) \<notin> set [1] \<and> (2 :: int) \<in> set [2] \<and>
   (case compute_remap [1] [2] [2] of Inl e \<Rightarrow> None | Inr m \<Rightarrow> m 2) = Some 3 \<and>
   (case convert_nodes_to_datapoints_map [1] [2] of Inl e \<Rightarrow> None | Inr m \<Rightarrow> m 2) = Some 3 \<and>
   (case convert_nodes_to_datapoints_map [1] [2] of Inl e \<Rightarrow> None | Inr m \<Rightarrow> m 2) \<noteq> Some 2 \<and>
   (2 :: int) \<notin> set [5] \<and> (2 :: int) \<in> set [2, 5] \<and>
   gap_list (in_use [5] [2, 5]) = [1, 3, 4] \<and>
   (case convert_nodes_to_datapoints_map [5] [2, 5] of
      Inl e \<Rightarrow> [] | Inr m \<Rightarrow> [m 2, m 5]) = [Some 6, Some 1]"
proof -
  have 1: "(case compute_remap [1] [2] [2] of Inl e \<Rightarrow> None | Inr m \<Rightarrow> m 2) = Some 3"
    by code_simp
  have 2: "(case convert_nodes_to_datapoints_map [1] [2] of Inl e \<Rightarrow> None | Inr m \<Rightarrow> m 2) = Some 3"
    by code_simp
  have 3: "gap_list (in_use [5] [2, 5]) = [1, 3, 4]" by code_simp
  have 4: "(case convert_nodes_to_datapoints_map [5] [2, 5] of
      Inl e \<Rightarrow> [] | Inr m \<Rightarrow> [m 2, m 5]) = [Some 6, Some 1]"
    by code_simp
  show ?thesis by (simp add: 1 2 3 4)
qed

text \<open>
  The same in general: whatever the inputs, the loop maps a candidate that is not a node
  identifier to an identifier above every identifier in use, so a datapoint that does not
  collide never keeps its identifier.
\<close>

lemma else_branch_serves_noncolliding:
  assumes "a \<noteq> [] \<or> b \<noteq> []" and "c \<in> set cs" and "c \<notin> set a"
  shows "\<exists>m n. compute_remap a b cs = Inr m \<and> m c = Some n \<and>
               last (in_use a b) < n \<and> (\<forall>u \<in> set a \<union> set b. u < n) \<and>
               (c \<in> set b \<longrightarrow> n \<noteq> c)"
proof -
  let ?m = "identifier_map (remap_loop (set a) cs (initial_state a b))"
  note d = remap_invD [OF final_inv [OF assms(1), of cs]]
  from assms(2) final_dom [of a cs b] obtain n where n: "?m c = Some n" by blast
  have "last (in_use a b) < n" using d(5) [OF n] assms(3) by simp
  moreover have "\<forall>u \<in> set a \<union> set b. u < n"
    using d(3) calculation by fastforce
  moreover have "c \<in> set b \<longrightarrow> n \<noteq> c"
    using calculation(2) by auto
  ultimately show ?thesis using compute_remap_Inr [OF assms(1), of cs] n by simp
qed

lemma convert_nodes_to_datapoints_map_returns:
  "\<exists>m. convert_nodes_to_datapoints_map a b = Inr m"
proof (cases "length a > 0 \<and> length b > 0")
  case True
  then have "a \<noteq> [] \<or> b \<noteq> []" by simp
  then show ?thesis
    using True compute_remap_Inr [of a b b] by (simp add: convert_nodes_to_datapoints_map_def)
next
  case False
  then show ?thesis by (auto simp: convert_nodes_to_datapoints_map_def)
qed

text \<open>
  What the loop does for the colliding candidates (candidates distinct): the one with
  \<open>k\<close> colliding candidates before it gets entry \<open>k\<close> of the gap list, which lists in
  ascending order the unused integers from 1 up to the smallest identifier in use and those
  between identifiers in use; once the gap list is exhausted it gets the maximum in use
  plus the number of candidates so far that took no gap.
\<close>

lemma colliding_candidate_assignment:
  assumes "a \<noteq> [] \<or> b \<noteq> []" and "distinct cs" and "i < length cs" and "cs ! i \<in> set a"
  shows "\<exists>m. compute_remap a b cs = Inr m \<and>
           m (cs ! i) =
             Some (if colliding_before (set a) cs i < length (gap_list (in_use a b))
                   then gap_list (in_use a b) ! colliding_before (set a) cs i
                   else last (in_use a b) + int (i + 1 - length (gap_list (in_use a b)))) \<and>
           sorted_wrt (<) (gap_list (in_use a b)) \<and>
           set (gap_list (in_use a b)) =
             {n. 1 \<le> n \<and> n < hd (in_use a b)} \<union>
             {n. hd (in_use a b) < n \<and> n < last (in_use a b) \<and> n \<notin> set a \<union> set b}"
proof -
  obtain x rest where xs: "in_use a b = x # rest"
    using in_use_nonempty [OF assms(1)] by (cases "in_use a b") auto
  have st: "sorted_wrt (<) (x # rest)" using in_use_props(1) [of a b] xs by simp
  have se: "set (x # rest) = set a \<union> set b" using in_use_props(2) [of a b] xs by simp
  note g = gap_list_props [OF st]
  have g2: "set (gap_list (in_use a b)) =
             {n. 1 \<le> n \<and> n < hd (in_use a b)} \<union>
             {n. hd (in_use a b) < n \<and> n < last (in_use a b) \<and> n \<notin> set a \<union> set b}"
    using g(2) by (simp only: xs se list.sel)
  have g1: "sorted_wrt (<) (gap_list (in_use a b))" using g(1) by (simp only: xs)
  have "identifier_map (remap_loop (set a) cs (initial_state a b)) (cs ! i) =
          Some (if colliding_before (set a) cs i < length (gap_list (in_use a b))
                   then gap_list (in_use a b) ! colliding_before (set a) cs i
                   else last (in_use a b) + int (i + 1 - length (gap_list (in_use a b))))"
    using remap_loop_colliding [OF assms(2,3,4), of "initial_state a b"]
    by (simp add: initial_state_def)
  then show ?thesis using compute_remap_Inr [OF assms(1), of cs] g1 g2 by simp
qed

text \<open>
  C6: a colliding candidate takes the next gap, and an identifier past the maximum in use
  is allocated only when the gap list is exhausted; with \<open>existing_A = {1,2,4,5}\<close> a
  colliding candidate is assigned 3 before any identifier greater than 5 is used. The code
  does not do this when a datapoint that does not collide comes first: with nodes
  \<open>{1,2,4,5}\<close> and datapoints \<open>{0, 1}\<close> the gap list is \<open>[3]\<close>; the first pass of the loop,
  for datapoint 0, leaves the gap list as it is and hands out 6, and only the second pass
  gives the colliding datapoint 1 the gap 3.
\<close>

theorem identifier_past_maximum_used_before_gap:
  "(0 :: int) \<notin> set [1, 2, 4, 5] \<and> (1 :: int) \<in> set [1, 2, 4, 5] \<and>
   gap_list (in_use [1, 2, 4, 5] [0, 1]) = [3] \<and>
   last (in_use [1, 2, 4, 5] [0, 1]) = 5 \<and>
   available_identifiers
     (remap_loop (set [1, 2, 4, 5]) [0] (initial_state [1, 2, 4, 5] [0, 1])) = [3] \<and>
   identifier_map
     (remap_loop (set [1, 2, 4, 5]) [0] (initial_state [1, 2, 4, 5] [0, 1])) 0 = Some 6 \<and>
   (case convert_nodes_to_datapoints_map [1, 2, 4, 5] [0, 1] of
      Inl e \<Rightarrow> [] | Inr m \<Rightarrow> [m 0, m 1]) = [Some 6, Some 3]"
proof -
  have 1: "gap_list (in_use [1, 2, 4, 5] [0, 1]) = [3]" by code_simp
  have 2: "last (in_use [1, 2, 4, 5] [0, 1]) = 5" by code_simp
  have 3: "available_identifiers
     (remap_loop (set [1, 2, 4, 5]) [0] (initial_state [1, 2, 4, 5] [0, 1])) = [3]"
    by code_simp
  have 4: "identifier_map
     (remap_loop (set [1, 2, 4, 5]) [0] (initial_state [1, 2, 4, 5] [0, 1])) 0 = Some 6"
    by code_simp
  have 5: "(case convert_nodes_to_datapoints_map [1, 2, 4, 5] [0, 1] of
      Inl e \<Rightarrow> [] | Inr m \<Rightarrow> [m 0, m 1]) = [Some 6, Some 3]"
    by code_simp
  have a: "(0 :: int) \<notin> set [1, 2, 4, 5]" and b: "(1 :: int) \<in> set [1, 2, 4, 5]" by simp_all
  show ?thesis by (intro conjI a b 1 2 3 4 5)
qed

end
